theory Spec2Isabelle
  imports Complex_Main "HOL-Library.Sublist" "HOL-Library.AList"
begin

section \<open>Strings as Python sees them\<close>

text \<open>
  Python strings are modelled as \<^typ>\<open>string\<close>, one \<^typ>\<open>char\<close> per code point;
  a \<^typ>\<open>char\<close> is a code point below 256, so the strings of the model are the
  Latin-1 strings. On these the three character classes that the code uses are the ones of
  Python 3:
  \<^item> \<open>str.lower\<close> maps \<open>A\<close>..\<open>Z\<close> to \<open>a\<close>..\<open>z\<close> and the thirty capitals
    \<open>U+00C0\<close>..\<open>U+00DE\<close> (without the sign \<open>U+00D7\<close>) to the letter 32 places
    further, and leaves every other character alone;
  \<^item> \<open>str.strip\<close> removes the characters for which \<open>str.isspace\<close> holds: the ten of
    ASCII, \<open>U+0085\<close> and \<open>U+00A0\<close>;
  \<^item> the class \<open>\w\<close> of a regular expression on \<open>str\<close> is the ASCII letters, the
    digits, the underscore and the 71 alphanumeric characters from \<open>U+00AA\<close> on.
\<close>

definition upper_letters :: string where
  "upper_letters = ''ABCDEFGHIJKLMNOPQRSTUVWXYZ''"

definition lower_letters :: string where
  "lower_letters = ''abcdefghijklmnopqrstuvwxyz''"

definition digits :: string where
  "digits = ''0123456789''"

definition latin1_upper :: string where
  "latin1_upper =
     [CHR 0xC0, CHR 0xC1, CHR 0xC2, CHR 0xC3, CHR 0xC4, CHR 0xC5, CHR 0xC6, CHR 0xC7,
      CHR 0xC8, CHR 0xC9, CHR 0xCA, CHR 0xCB, CHR 0xCC, CHR 0xCD, CHR 0xCE, CHR 0xCF,
      CHR 0xD0, CHR 0xD1, CHR 0xD2, CHR 0xD3, CHR 0xD4, CHR 0xD5, CHR 0xD6, CHR 0xD8,
      CHR 0xD9, CHR 0xDA, CHR 0xDB, CHR 0xDC, CHR 0xDD, CHR 0xDE]"

definition latin1_lower :: string where
  "latin1_lower =
     [CHR 0xE0, CHR 0xE1, CHR 0xE2, CHR 0xE3, CHR 0xE4, CHR 0xE5, CHR 0xE6, CHR 0xE7,
      CHR 0xE8, CHR 0xE9, CHR 0xEA, CHR 0xEB, CHR 0xEC, CHR 0xED, CHR 0xEE, CHR 0xEF,
      CHR 0xF0, CHR 0xF1, CHR 0xF2, CHR 0xF3, CHR 0xF4, CHR 0xF5, CHR 0xF6, CHR 0xF8,
      CHR 0xF9, CHR 0xFA, CHR 0xFB, CHR 0xFC, CHR 0xFD, CHR 0xFE]"

definition latin1_word :: string where
  "latin1_word =
     [CHR 0xAA, CHR 0xB2, CHR 0xB3, CHR 0xB5, CHR 0xB9, CHR 0xBA, CHR 0xBC, CHR 0xBD,
      CHR 0xBE, CHR 0xC0, CHR 0xC1, CHR 0xC2, CHR 0xC3, CHR 0xC4, CHR 0xC5, CHR 0xC6,
      CHR 0xC7, CHR 0xC8, CHR 0xC9, CHR 0xCA, CHR 0xCB, CHR 0xCC, CHR 0xCD, CHR 0xCE,
      CHR 0xCF, CHR 0xD0, CHR 0xD1, CHR 0xD2, CHR 0xD3, CHR 0xD4, CHR 0xD5, CHR 0xD6,
      CHR 0xD8, CHR 0xD9, CHR 0xDA, CHR 0xDB, CHR 0xDC, CHR 0xDD, CHR 0xDE, CHR 0xDF,
      CHR 0xE0, CHR 0xE1, CHR 0xE2, CHR 0xE3, CHR 0xE4, CHR 0xE5, CHR 0xE6, CHR 0xE7,
      CHR 0xE8, CHR 0xE9, CHR 0xEA, CHR 0xEB, CHR 0xEC, CHR 0xED, CHR 0xEE, CHR 0xEF,
      CHR 0xF0, CHR 0xF1, CHR 0xF2, CHR 0xF3, CHR 0xF4, CHR 0xF5, CHR 0xF6, CHR 0xF8,
      CHR 0xF9, CHR 0xFA, CHR 0xFB, CHR 0xFC, CHR 0xFD, CHR 0xFE, CHR 0xFF]"

definition lower_char :: "char \<Rightarrow> char" where
  "lower_char c =
     (case map_of (zip (upper_letters @ latin1_upper) (lower_letters @ latin1_lower)) c of
        None \<Rightarrow> c | Some d \<Rightarrow> d)"

definition py_lower :: "string \<Rightarrow> string" where
  "py_lower s = map lower_char s"

definition is_space :: "char \<Rightarrow> bool" where
  "is_space c = (c \<in> set [CHR 0x09, CHR 0x0A, CHR 0x0B, CHR 0x0C, CHR 0x0D,
                          CHR 0x1C, CHR 0x1D, CHR 0x1E, CHR 0x1F, CHR 0x20,
                          CHR 0x85, CHR 0xA0])"

definition py_strip :: "string \<Rightarrow> string" where
  "py_strip s = rev (dropWhile is_space (rev (dropWhile is_space s)))"

definition is_word_char :: "char \<Rightarrow> bool" where
  "is_word_char c =
     (c \<in> set (lower_letters @ upper_letters @ digits @ ''_'' @ latin1_word))"

text \<open>The operator \<open>t in s\<close> on strings: \<open>t\<close> starts at some position of \<open>s\<close>.\<close>

fun py_in :: "string \<Rightarrow> string \<Rightarrow> bool" where
  "py_in t [] = (t = [])"
| "py_in t (c # cs) = (prefix t (c # cs) \<or> py_in t cs)"

section \<open>The relevance classifier\<close>

definition relevant_terms :: "string list" where
  "relevant_terms =
     [''cervical cancer'', ''cervix'', ''cervical'', ''colposcopy'', ''pap smear'',
      ''hpv'', ''human papillomavirus'', ''cin'', ''cervical intraepithelial neoplasia'',
      ''precancerous lesions'', ''cervical screening'', ''who colposcopy'', ''iarc colposcopy'']"

text \<open>\<open>any(term in text_lower for term in relevant_terms)\<close>\<close>

definition is_relevant_to_cervical_cancer :: "string \<Rightarrow> bool" where
  "is_relevant_to_cervical_cancer text =
     (let text_lower = py_lower text
      in list_ex (\<lambda>term. py_in term text_lower) relevant_terms)"

section \<open>The relevance scorer\<close>

text \<open>
  \<open>re.findall(r'\b' + re.escape(keyword) + r'\b', text)\<close>: for a keyword of letters and
  spaces the escaped pattern is the keyword itself. The search goes through the text from
  the left; a match needs the keyword at the position and a word boundary on both of its
  sides; after a match the search goes on behind it. \<open>findall\<close> gives one entry for each
  match; the model lists the positions where the matches start. \<open>prev\<close> is the character
  before the position, \<open>None\<close> at the start of the text. The keywords of the table are
  not empty; the model gives no match for an empty keyword.
\<close>

definition is_word :: "char option \<Rightarrow> bool" where
  "is_word x = (case x of None \<Rightarrow> False | Some c \<Rightarrow> is_word_char c)"

definition boundary :: "char option \<Rightarrow> char option \<Rightarrow> bool" where
  "boundary l r = (is_word l \<noteq> is_word r)"

definition char_at :: "string \<Rightarrow> nat \<Rightarrow> char option" where
  "char_at s i = (if i < length s then Some (s ! i) else None)"

fun findall :: "string \<Rightarrow> nat \<Rightarrow> char option \<Rightarrow> string \<Rightarrow> nat list" where
  "findall kw pos prev [] = []"
| "findall kw pos prev (c # cs) =
     (if prefix kw (c # cs) \<and> kw \<noteq> []
         \<and> boundary prev (Some c)
         \<and> boundary (Some (last kw)) (char_at (c # cs) (length kw))
      then pos # findall kw (pos + length kw) (Some (last kw)) (drop (length kw - 1) cs)
      else findall kw (pos + 1) (Some c) cs)"

text \<open>The dictionary \<open>keywords\<close> of the source, in its insertion order.\<close>

definition keywords_table :: "(string \<times> int) list" where
  "keywords_table =
     [(''iarc colposcopy database'', 5),
      (''who colposcopy'', 5),
      (''iarcimagebankolpo'', 5),
      (''colposcopy image'', 4),
      (''cervical cancer'', 3),
      (''colposcopy'', 3),
      (''cervical'', 2),
      (''hpv'', 2),
      (''screening'', 1),
      (''dataset'', 1)]"

definition calculate_relevance_score :: "string \<Rightarrow> string \<Rightarrow> int" where
  "calculate_relevance_score title abstract =
     (let text = py_lower (title @ '' '' @ abstract)
      in fold (\<lambda>(keyword, weight) score.
                 let count = length (findall keyword 0 None text)
                 in score + int count * weight)
              keywords_table 0)"

section \<open>Title similarity\<close>

text \<open>
  \<open>SequenceMatcher(None, a, b).ratio()\<close> of Python's \<open>difflib\<close>, as the library computes
  it with no junk predicate and \<open>autojunk\<close> left on. \<open>b2j\<close> maps a character to the
  ascending list of its positions in \<open>b\<close>; when \<open>b\<close> has 200 characters or more, a
  character that fills more than 1 + len(b)/100 positions is popular and loses its entry.
\<close>

definition b2j_all :: "string \<Rightarrow> char \<Rightarrow> nat list" where
  "b2j_all b elt = map fst (filter (\<lambda>(i, e). e = elt) (enumerate 0 b))"

definition bpopular :: "string \<Rightarrow> char \<Rightarrow> bool" where
  "bpopular b elt =
     (let n = length b
      in n \<ge> 200 \<and> (let ntest = n div 100 + 1 in length (b2j_all b elt) > ntest))"

definition b2j :: "string \<Rightarrow> char \<Rightarrow> nat list" where
  "b2j b elt = (if bpopular b elt then [] else b2j_all b elt)"

text \<open>
  A match \<open>(i, j, k)\<close> says \<open>a[i:i+k] == b[j:j+k]\<close>. The main loop of
  \<open>find_longest_match\<close> goes through \<open>a[alo:ahi]\<close>; \<open>j2len\<close> gives for a position
  \<open>j\<close> of \<open>b\<close> the length of the longest match that ends with \<open>a[i-1]\<close> and
  \<open>b[j]\<close>, and 0 where the dictionary has no entry (\<open>j2len.get(j-1, 0)\<close>; the key
  \<open>-1\<close> is never there). Python's \<open>i-k+1\<close> is written \<open>i + 1 - k\<close>, since \<open>k\<close> can
  be \<open>i + 1\<close>.
\<close>

type_synonym match = "nat \<times> nat \<times> nat"

fun scan_row :: "nat \<Rightarrow> nat \<Rightarrow> nat \<Rightarrow> (nat \<Rightarrow> nat) \<Rightarrow> nat list
                   \<Rightarrow> (nat \<Rightarrow> nat) \<times> match \<Rightarrow> (nat \<Rightarrow> nat) \<times> match" where
  "scan_row i blo bhi j2len [] st = st"
| "scan_row i blo bhi j2len (j # js) (newj2len, besti, bestj, bestsize) =
     (if j < blo then scan_row i blo bhi j2len js (newj2len, besti, bestj, bestsize)
      else if j \<ge> bhi then (newj2len, besti, bestj, bestsize)
      else let k = (if j = 0 then 0 else j2len (j - 1)) + 1
           in if k > bestsize
              then scan_row i blo bhi j2len js (newj2len(j := k), i + 1 - k, j + 1 - k, k)
              else scan_row i blo bhi j2len js (newj2len(j := k), besti, bestj, bestsize))"

definition scan_rows :: "string \<Rightarrow> string \<Rightarrow> nat \<Rightarrow> nat \<Rightarrow> nat \<Rightarrow> nat \<Rightarrow> (nat \<Rightarrow> nat) \<times> match" where
  "scan_rows a b alo ahi blo bhi =
     fold (\<lambda>i (j2len, best). scan_row i blo bhi j2len (b2j b (a ! i)) (\<lambda>_. 0, best))
          [alo..<ahi] (\<lambda>_. 0, alo, blo, 0)"

text \<open>
  The two loops that extend the best match to both sides as long as the characters agree.
  With no junk predicate the set \<open>bjunk\<close> is empty, so \<open>isbjunk\<close> is always false and the
  two loops about junk that follow in the library do nothing.
\<close>

function extend_left :: "string \<Rightarrow> string \<Rightarrow> nat \<Rightarrow> nat \<Rightarrow> match \<Rightarrow> match" where
  "extend_left a b alo blo (besti, bestj, bestsize) =
     (if besti > alo \<and> bestj > blo \<and> a ! (besti - 1) = b ! (bestj - 1)
      then extend_left a b alo blo (besti - 1, bestj - 1, bestsize + 1)
      else (besti, bestj, bestsize))"
  by pat_completeness auto
termination
  by (relation "measure (\<lambda>(a, b, alo, blo, besti, bestj, bestsize). besti)") auto

function extend_right :: "string \<Rightarrow> string \<Rightarrow> nat \<Rightarrow> nat \<Rightarrow> match \<Rightarrow> match" where
  "extend_right a b ahi bhi (besti, bestj, bestsize) =
     (if besti + bestsize < ahi \<and> bestj + bestsize < bhi
         \<and> a ! (besti + bestsize) = b ! (bestj + bestsize)
      then extend_right a b ahi bhi (besti, bestj, bestsize + 1)
      else (besti, bestj, bestsize))"
  by pat_completeness auto
termination
  by (relation "measure (\<lambda>(a, b, ahi, bhi, besti, bestj, bestsize). ahi - (besti + bestsize))") auto

declare extend_left.simps [simp del] extend_right.simps [simp del]

definition find_longest_match :: "string \<Rightarrow> string \<Rightarrow> nat \<Rightarrow> nat \<Rightarrow> nat \<Rightarrow> nat \<Rightarrow> match" where
  "find_longest_match a b alo ahi blo bhi =
     extend_right a b ahi bhi (extend_left a b alo blo (snd (scan_rows a b alo ahi blo bhi)))"


text \<open>
  A match that was found lies inside the ranges it was searched in. The loop of
  \<open>get_matching_blocks\<close> ends for this reason.
\<close>

definition best_ok :: "nat \<Rightarrow> nat \<Rightarrow> nat \<Rightarrow> nat \<Rightarrow> match \<Rightarrow> bool" where
  "best_ok alo ahi blo bhi m =
     (case m of (i, j, k) \<Rightarrow>
        (k = 0 \<and> i = alo \<and> j = blo)
        \<or> (0 < k \<and> alo \<le> i \<and> i + k \<le> ahi \<and> blo \<le> j \<and> j + k \<le> bhi))"

lemma scan_row_inv:
  assumes "\<forall>j. j2len j \<le> j + 1 - blo" and "\<forall>j. j2len j \<le> i - alo"
    and "alo \<le> i" and "i < ahi"
    and "\<forall>j. new j \<le> j + 1 - blo" and "\<forall>j. new j \<le> i + 1 - alo"
    and "best_ok alo ahi blo bhi best"
    and "scan_row i blo bhi j2len js (new, best) = (new', best')"
  shows "(\<forall>j. new' j \<le> j + 1 - blo) \<and> (\<forall>j. new' j \<le> i + 1 - alo)
         \<and> best_ok alo ahi blo bhi best'"
  using assms(5-8)
proof (induction js arbitrary: new best)
  case Nil
  then show ?case by simp
next
  case (Cons j js)
  obtain bi bj bs where best: "best = (bi, bj, bs)" by (cases best)
  show ?case
  proof (cases "j < blo")
    case True
    with Cons.prems best show ?thesis
      by (intro Cons.IH [of new best]) simp_all
  next
    case lo: False
    show ?thesis
    proof (cases "bhi \<le> j")
      case True
      with lo Cons.prems best show ?thesis by simp
    next
      case hi: False
      define k where "k = (if j = 0 then 0 else j2len (j - 1)) + 1"
      have k1: "k \<le> j + 1 - blo"
        using assms(1) [rule_format, of "j - 1"] lo by (auto simp: k_def)
      have k2: "k \<le> i + 1 - alo"
        using assms(2) [rule_format, of "j - 1"] assms(3) by (auto simp: k_def)
      have k0: "0 < k" by (simp add: k_def)
      have new1: "\<forall>j'. (new(j := k)) j' \<le> j' + 1 - blo"
        using Cons.prems(1) k1 by simp
      have new2: "\<forall>j'. (new(j := k)) j' \<le> i + 1 - alo"
        using Cons.prems(2) k2 by simp
      show ?thesis
      proof (cases "bs < k")
        case True
        have ok: "best_ok alo ahi blo bhi (i + 1 - k, j + 1 - k, k)"
          using k0 k1 k2 lo hi assms(3,4) by (auto simp: best_ok_def)
        have "scan_row i blo bhi j2len js (new(j := k), i + 1 - k, j + 1 - k, k) = (new', best')"
          using Cons.prems(4) best lo hi True by (simp add: k_def Let_def)
        from Cons.IH [OF new1 new2 ok this] show ?thesis .
      next
        case False
        have "scan_row i blo bhi j2len js (new(j := k), best) = (new', best')"
          using Cons.prems(4) best lo hi False by (simp add: k_def Let_def)
        from Cons.IH [OF new1 new2 Cons.prems(3) this] show ?thesis .
      qed
    qed
  qed
qed

lemma scan_rows_upto_inv:
  assumes "n \<le> ahi"
    and "fold (\<lambda>i (j2len, best). scan_row i blo bhi j2len (b2j b (a ! i)) (\<lambda>_. 0, best))
              [alo..<n] (\<lambda>_. 0, alo, blo, 0) = (j2len, best)"
  shows "(\<forall>j. j2len j \<le> j + 1 - blo) \<and> (\<forall>j. j2len j \<le> n - alo)
         \<and> best_ok alo ahi blo bhi best"
  using assms
proof (induction n arbitrary: j2len best)
  case 0
  then show ?case by (auto simp: best_ok_def)
next
  case (Suc n)
  show ?case
  proof (cases "alo \<le> n")
    case False
    with Suc.prems show ?thesis by (auto simp: best_ok_def)
  next
    case True
    obtain j0 b0 where prev:
      "fold (\<lambda>i (j2len, best). scan_row i blo bhi j2len (b2j b (a ! i)) (\<lambda>_. 0, best))
            [alo..<n] (\<lambda>_. 0, alo, blo, 0) = (j0, b0)"
      by (cases "fold (\<lambda>i (j2len, best). scan_row i blo bhi j2len (b2j b (a ! i)) (\<lambda>_. 0, best))
            [alo..<n] (\<lambda>_. 0, alo, blo, 0)")
    from Suc.IH [OF _ prev] Suc.prems(1)
    have ih: "\<forall>j. j0 j \<le> j + 1 - blo" "\<forall>j. j0 j \<le> n - alo" "best_ok alo ahi blo bhi b0"
      by simp_all
    have step: "scan_row n blo bhi j0 (b2j b (a ! n)) (\<lambda>_. 0, b0) = (j2len, best)"
      using Suc.prems(2) True prev by simp
    have "n < ahi" using Suc.prems(1) by simp
    from scan_row_inv [OF ih(1) ih(2) True this _ _ ih(3) step]
    show ?thesis using True by (simp add: Suc_diff_le)
  qed
qed

lemma extend_left_ok:
  "best_ok alo ahi blo bhi m \<Longrightarrow> best_ok alo ahi blo bhi (extend_left a b alo blo m)"
proof (induction a b alo blo m rule: extend_left.induct)
  case (1 a b alo blo besti bestj bestsize)
  show ?case
  proof (cases "besti > alo \<and> bestj > blo \<and> a ! (besti - 1) = b ! (bestj - 1)")
    case True
    have "best_ok alo ahi blo bhi (besti - 1, bestj - 1, bestsize + 1)"
      using "1.prems" True by (auto simp: best_ok_def)
    from "1.IH" [OF True this] True show ?thesis
      by (simp add: extend_left.simps [of a b alo blo besti bestj bestsize])
  next
    case False
    with "1.prems" show ?thesis
      by (auto simp add: extend_left.simps [of a b alo blo besti bestj bestsize])
  qed
qed

lemma extend_right_ok:
  "best_ok alo ahi blo bhi m \<Longrightarrow> best_ok alo ahi blo bhi (extend_right a b ahi bhi m)"
proof (induction a b ahi bhi m rule: extend_right.induct)
  case (1 a b ahi bhi besti bestj bestsize)
  show ?case
  proof (cases "besti + bestsize < ahi \<and> bestj + bestsize < bhi
         \<and> a ! (besti + bestsize) = b ! (bestj + bestsize)")
    case True
    have "best_ok alo ahi blo bhi (besti, bestj, bestsize + 1)"
      using "1.prems" True by (auto simp: best_ok_def)
    from "1.IH" [OF True this] True show ?thesis
      by (simp add: extend_right.simps [of a b ahi bhi besti bestj bestsize])
  next
    case False
    with "1.prems" show ?thesis
      by (auto simp add: extend_right.simps [of a b ahi bhi besti bestj bestsize])
  qed
qed

lemma find_longest_match_ok:
  "best_ok alo ahi blo bhi (find_longest_match a b alo ahi blo bhi)"
proof -
  obtain j2len best where s: "scan_rows a b alo ahi blo bhi = (j2len, best)"
    by (cases "scan_rows a b alo ahi blo bhi")
  then have "best_ok alo ahi blo bhi best"
    using scan_rows_upto_inv [of ahi ahi blo bhi b a alo j2len best]
    by (simp add: scan_rows_def)
  then show ?thesis
    by (simp add: find_longest_match_def s extend_left_ok extend_right_ok)
qed

lemma find_longest_match_bounds:
  assumes "find_longest_match a b alo ahi blo bhi = (i, j, k)" and "k \<noteq> 0"
  shows "alo \<le> i \<and> i + k \<le> ahi \<and> blo \<le> j \<and> j + k \<le> bhi"
  using find_longest_match_ok [of alo ahi blo bhi a b] assms by (simp add: best_ok_def)


text \<open>
  The loop of \<open>get_matching_blocks\<close>. The queue is a stack: \<open>queue.pop()\<close> takes the
  range pushed last, here the head of the list. The library then sorts the blocks and joins
  adjacent ones, which leaves the sum of their sizes as it is; \<open>ratio\<close> reads only that
  sum, so the model takes it from the blocks as the loop found them.
\<close>

function matching_blocks_loop ::
  "string \<Rightarrow> string \<Rightarrow> (nat \<times> nat \<times> nat \<times> nat) list \<Rightarrow> match list \<Rightarrow> match list" where
  "matching_blocks_loop a b [] matching_blocks = matching_blocks"
| "matching_blocks_loop a b ((alo, ahi, blo, bhi) # queue) matching_blocks =
     (case find_longest_match a b alo ahi blo bhi of (i, j, k) \<Rightarrow>
        if k \<noteq> 0
        then matching_blocks_loop a b
               ((if i + k < ahi \<and> j + k < bhi then [(i + k, ahi, j + k, bhi)] else []) @
                (if alo < i \<and> blo < j then [(alo, i, blo, j)] else []) @ queue)
               (matching_blocks @ [(i, j, k)])
        else matching_blocks_loop a b queue matching_blocks)"
  by pat_completeness auto
termination
proof (relation "measure (\<lambda>(a, b, queue, blocks).
                   sum_list (map (\<lambda>(alo, ahi, blo, bhi). 2 * (ahi - alo) + 1) queue))",
       goal_cases)
  case 1
  show ?case by simp
next
  case (2 a b alo ahi blo bhi queue blocks i jk j k)
  then have "find_longest_match a b alo ahi blo bhi = (i, j, k)" by simp
  from find_longest_match_bounds [OF this] 2 show ?case by auto
next
  case 3
  then show ?case by simp
qed

definition get_matching_blocks :: "string \<Rightarrow> string \<Rightarrow> match list" where
  "get_matching_blocks a b = matching_blocks_loop a b [(0, length a, 0, length b)] []"

text \<open>
  \<open>ratio\<close> is \<open>2.0 * matches / length\<close>, and \<open>1.0\<close> when both strings are empty. The
  model computes the quotient as a rational number. The comparison with \<open>0.85\<close> in the
  duplicate detection then agrees with the one on floats for all strings of fewer than
  \<open>10^14\<close> characters: a quotient of integers that is not \<open>17/20\<close> is further from it
  than the rounding error of the division.
\<close>

definition ratio :: "string \<Rightarrow> string \<Rightarrow> rat" where
  "ratio a b =
     (let matches = sum_list (map (\<lambda>(i, j, k). k) (get_matching_blocks a b));
          len = length a + length b
      in if len \<noteq> 0 then 2 * of_nat matches / of_nat len else 1)"

definition calculate_similarity :: "string \<Rightarrow> string \<Rightarrow> rat" where
  "calculate_similarity title1 title2 = ratio (py_lower title1) (py_lower title2)"

section \<open>Duplicate detection\<close>

text \<open>
  A paper is a Python dictionary. The fields that \<open>detect_duplicates\<close> reads are the
  title (\<open>paper['title']\<close>, always set by the adapters), and three keys that it treats as
  optional: \<open>relevance_score\<close> (read with \<open>.get(..., 0)\<close>), \<open>links\<close> (tested with
  \<open>'links' in paper\<close>) and \<open>duplicate_count\<close> (set for merged clusters only). All other
  keys are carried along in \<open>other_fields\<close>. A dictionary of links keeps its insertion
  order and is an association list with distinct keys.

  The papers of the input are taken to be distinct objects with distinct \<open>links\<close>
  dictionaries, as the adapters build them; an update in place of one paper is then an
  update of the entry that holds it.
\<close>

record 'a paper =
  title :: string
  relevance_score :: "int option"
  links :: "(string \<times> string) list option"
  duplicate_count :: "nat option"
  other_fields :: 'a

text \<open>\<open>d.update(e)\<close>: a key of \<open>d\<close> keeps its place and takes the value of \<open>e\<close>, a new
  key goes to the end.\<close>

definition dict_update :: "('k \<times> 'v) list \<Rightarrow> ('k \<times> 'v) list \<Rightarrow> ('k \<times> 'v) list" where
  "dict_update d e = fold (\<lambda>(k, v) acc. AList.update k v acc) e d"

text \<open>\<open>x.get('relevance_score', 0)\<close>\<close>

definition get_score :: "'a paper \<Rightarrow> int" where
  "get_score p = (case relevance_score p of None \<Rightarrow> 0 | Some s \<Rightarrow> s)"

text \<open>\<open>max(xs, key=key)\<close> on a list that starts with \<open>best\<close>: the first of the largest
  elements.\<close>

fun py_max :: "('b \<Rightarrow> int) \<Rightarrow> 'b \<Rightarrow> 'b list \<Rightarrow> 'b" where
  "py_max key best [] = best"
| "py_max key best (x # xs) = (if key x > key best then py_max key x xs else py_max key best xs)"

text \<open>
  The statement that merges the links in the first pass,
  \<open>unique_by_title[title]['links'].update(paper.get('links', {}))\<close> under its guard
  \<open>'links' in paper and 'links' in unique_by_title[title]\<close>: what the kept paper is
  afterwards.
\<close>

definition update_links :: "'a paper \<Rightarrow> 'a paper \<Rightarrow> 'a paper" where
  "update_links kept p =
     (case (links p, links kept) of
        (Some pl, Some kl) \<Rightarrow> kept\<lparr>links := Some (dict_update kl pl)\<rparr>
      | _ \<Rightarrow> kept)"

text \<open>
  First pass, one step of the loop over \<open>results\<close>. \<open>unique_by_title\<close> is a dictionary
  in insertion order: assigning to a key that is there keeps its place.
\<close>

definition exact_step :: "'a paper \<Rightarrow> (string \<times> 'a paper) list \<Rightarrow> (string \<times> 'a paper) list" where
  "exact_step p unique_by_title =
     (let t = py_strip (py_lower (title p))
      in case map_of unique_by_title t of
           Some kept \<Rightarrow>
             let kept' = update_links kept p;
                 merged = AList.update t kept' unique_by_title
             in if get_score p > get_score kept'
                then AList.update t p merged
                else merged
         | None \<Rightarrow> AList.update t p unique_by_title)"

definition exact_pass :: "'a paper list \<Rightarrow> (string \<times> 'a paper) list" where
  "exact_pass results = fold exact_step results []"

text \<open>Second pass: the body of the loop over \<open>j\<close>, with the state it changes.\<close>

definition fuzzy_inner ::
  "'a paper list \<Rightarrow> 'a paper \<Rightarrow> nat \<Rightarrow> 'a paper list \<times> nat set \<Rightarrow> 'a paper list \<times> nat set" where
  "fuzzy_inner titles paper1 j st =
     (case st of (duplicates, processed_indices) \<Rightarrow>
        if j \<in> processed_indices then (duplicates, processed_indices)
        else let paper2 = titles ! j;
                 similarity = calculate_similarity (title paper1) (title paper2)
             in if similarity > 85 / 100
                then (duplicates @ [paper2], insert j processed_indices)
                else (duplicates, processed_indices))"

text \<open>
  What is appended to \<open>fuzzy_unique\<close> for the list \<open>duplicates\<close>, which starts with
  \<open>paper1\<close>.
\<close>

definition merge_duplicates :: "'a paper list \<Rightarrow> 'a paper" where
  "merge_duplicates duplicates =
     (let paper1 = hd duplicates
      in if length duplicates > 1
         then let best_paper = py_max get_score paper1 (tl duplicates);
                  all_links = fold (\<lambda>dup all_links.
                                      case links dup of
                                        Some l \<Rightarrow> dict_update all_links l
                                      | None \<Rightarrow> all_links) duplicates [];
                  best_paper = (if all_links \<noteq> [] then best_paper\<lparr>links := Some all_links\<rparr>
                                else best_paper)
              in best_paper\<lparr>duplicate_count := Some (length duplicates)\<rparr>
         else paper1)"

text \<open>The body of the loop over \<open>i\<close>.\<close>

definition fuzzy_outer ::
  "'a paper list \<Rightarrow> nat \<Rightarrow> 'a paper list \<times> nat set \<Rightarrow> 'a paper list \<times> nat set" where
  "fuzzy_outer titles i st =
     (case st of (fuzzy_unique, processed_indices) \<Rightarrow>
        if i \<in> processed_indices then (fuzzy_unique, processed_indices)
        else let paper1 = titles ! i;
                 (duplicates, processed_indices) =
                    fold (fuzzy_inner titles paper1) [i + 1..<length titles]
                         ([paper1], insert i processed_indices)
             in (fuzzy_unique @ [merge_duplicates duplicates], processed_indices))"

definition fuzzy_pass :: "'a paper list \<Rightarrow> 'a paper list" where
  "fuzzy_pass titles = fst (fold (fuzzy_outer titles) [0..<length titles] ([], {}))"

definition detect_duplicates :: "'a paper list \<Rightarrow> 'a paper list" where
  "detect_duplicates results =
     (let unique_by_title = exact_pass results;
          titles = map snd unique_by_title
      in fuzzy_pass titles)"

section \<open>The pipeline\<close>

text \<open>
  \<open>search_all_sources\<close> after the adapters have answered: \<open>all_results\<close> is the list that
  the queries filled. \<open>list.sort(key=..., reverse=True)\<close> is stable also in reverse, so it
  is the stable sort by the negated key.
\<close>

definition search_all_sources :: "'a paper list \<Rightarrow> 'a paper list" where
  "search_all_sources all_results =
     (let unique_results = detect_duplicates all_results
      in sort_key (\<lambda>x. - get_score x) unique_results)"

section \<open>The passes, said without indices\<close>

text \<open>
  The clusters of the second pass, said without indices: the first paper that is left is
  the anchor of a new cluster, the cluster takes every later paper that is left and whose
  title is similar to the anchor's, and the scan goes on with the others. A paper is
  compared with the anchor only.
\<close>

definition similar :: "'a paper \<Rightarrow> 'a paper \<Rightarrow> bool" where
  "similar p q = (calculate_similarity (title p) (title q) > 85 / 100)"

function anchor_clusters :: "'a paper list \<Rightarrow> 'a paper list list" where
  "anchor_clusters [] = []"
| "anchor_clusters (p # ps) =
     (p # filter (similar p) ps) # anchor_clusters (filter (\<lambda>q. \<not> similar p q) ps)"
  by pat_completeness auto
termination
  by (relation "measure length") (auto simp: less_Suc_eq_le)

text \<open>The papers from index \<open>i\<close> on that are not in \<open>processed_indices\<close>.\<close>

definition unprocessed :: "'a paper list \<Rightarrow> nat set \<Rightarrow> nat \<Rightarrow> 'a paper list" where
  "unprocessed ts P i = map ((!) ts) (filter (\<lambda>j. j \<notin> P) [i..<length ts])"

text \<open>The key of the first pass: \<open>paper['title'].lower().strip()\<close>.\<close>

definition norm_title :: "'a paper \<Rightarrow> string" where
  "norm_title p = py_strip (py_lower (title p))"

text \<open>The clusters that the second pass forms for an input of \<open>detect_duplicates\<close>.\<close>

definition fuzzy_clusters :: "'a paper list \<Rightarrow> 'a paper list list" where
  "fuzzy_clusters results = anchor_clusters (map snd (exact_pass results))"

section \<open>Example inputs\<close>

text \<open>
  A paper as an adapter builds it: a title, a score, links, no \<open>duplicate_count\<close>. The
  three titles of \<open>chain_example\<close> form a chain: the first and the second are similar
  (14/15), the second and the third are similar (7/8), the first and the third are not
  (4/5).
\<close>

definition example_paper :: "string \<Rightarrow> int \<Rightarrow> (string \<times> string) list \<Rightarrow> unit paper" where
  "example_paper t s l =
     \<lparr>title = t, relevance_score = Some s, links = Some l, duplicate_count = None,
      other_fields = ()\<rparr>"

definition chain_example :: "unit paper list" where
  "chain_example =
     [example_paper ''abcdefg'' 1 [(''pdf'', ''u1'')],
      example_paper ''abcdefgh'' 2 [(''main'', ''u2'')],
      example_paper ''bcdefghi'' 0 [(''doi'', ''u3'')]]"

text \<open>
  Two papers whose titles differ in case only, the second with the higher score and with
  a link of its own.
\<close>

definition case_example :: "unit paper list" where
  "case_example =
     [example_paper ''HPV and Cervical Cancer Screening'' 3 [(''pdf'', ''u1'')],
      example_paper ''hpv and cervical cancer screening'' 5 [(''main'', ''u2'')]]"

text \<open>
  Three papers with titles that are not similar to one another, two of them with the same
  score.
\<close>

definition tie_example :: "unit paper list" where
  "tie_example =
     [example_paper ''colposcopy atlas'' 3 [],
      example_paper ''hpv vaccine trial'' 5 [],
      example_paper ''cervical screening programme'' 3 []]"

text \<open>The chain of \<open>chain_example\<close> with the highest score at its anchor.\<close>

definition anchor_best_example :: "unit paper list" where
  "anchor_best_example =
     [example_paper ''abcdefg'' 2 [(''pdf'', ''u1'')],
      example_paper ''abcdefgh'' 1 [(''main'', ''u2'')],
      example_paper ''bcdefghi'' 0 [(''doi'', ''u3'')]]"

text \<open>
  The chain of \<open>chain_example\<close> with a space after the first title, so that the first two
  papers have the same key in the first pass.
\<close>

definition space_example :: "unit paper list" where
  "space_example =
     [example_paper ''abcdefgh '' 1 [(''pdf'', ''u1'')],
      example_paper ''abcdefgh'' 2 [(''main'', ''u2'')],
      example_paper ''bcdefghi'' 0 [(''doi'', ''u3'')]]"

text \<open>
  Four papers: the first two have the same key in the first pass, the third is similar to
  them and the fourth is not.
\<close>

definition mixed_example :: "unit paper list" where
  "mixed_example =
     [example_paper ''abcdefg'' 1 [(''pdf'', ''u1'')],
      example_paper ''ABCDEFG'' 0 [(''main'', ''u2'')],
      example_paper ''abcdefgh'' 2 [(''doi'', ''u3'')],
      example_paper ''bcdefghi'' 0 []]"

section \<open>Word-boundary matches, by position\<close>

text \<open>
  What the specification counts: the positions \<open>p\<close> of the text where the keyword stands
  as a token of its own, with no word character right before it and none right after it.
\<close>

definition token_match_at :: "string \<Rightarrow> string \<Rightarrow> nat \<Rightarrow> bool" where
  "token_match_at kw text p =
     (take (length kw) (drop p text) = kw
      \<and> (p = 0 \<or> \<not> is_word_char (text ! (p - 1)))
      \<and> (length text \<le> p + length kw \<or> \<not> is_word_char (text ! (p + length kw))))"

text \<open>
  The test that \<open>findall\<close> makes at a position, said for position \<open>i\<close> of a text that
  follows the character \<open>prev\<close>.
\<close>

definition match_at :: "string \<Rightarrow> char option \<Rightarrow> string \<Rightarrow> nat \<Rightarrow> bool" where
  "match_at kw prev text i =
     (prefix kw (drop i text) \<and> kw \<noteq> []
      \<and> boundary (if i = 0 then prev else Some (text ! (i - 1))) (char_at text i)
      \<and> boundary (Some (last kw)) (char_at text (i + length kw)))"

text \<open>
  A keyword cannot match at two overlapping positions when none of its proper suffixes
  that start at a word boundary is a prefix of it. A keyword of the table is good: it starts
  and ends with a word character and has no such suffix.
\<close>

definition no_overlap :: "string \<Rightarrow> bool" where
  "no_overlap kw =
     list_all (\<lambda>k. \<not> (prefix (drop k kw) kw \<and> boundary (Some (kw ! (k - 1))) (Some (kw ! k))))
              [1..<length kw]"

definition good_keyword :: "string \<Rightarrow> bool" where
  "good_keyword kw = (kw \<noteq> [] \<and> is_word_char (hd kw) \<and> is_word_char (last kw) \<and> no_overlap kw)"

section \<open>Runs of characters that keep their entry\<close>

text \<open>
  \<open>run_len s m\<close> is the number of characters in a row, ending with \<open>s[m]\<close>, that are
  not popular in \<open>s\<close>. When a string is matched against itself this is the entry of
  \<open>j2len\<close> on the diagonal.
\<close>

fun run_len :: "string \<Rightarrow> nat \<Rightarrow> nat" where
  "run_len s 0 = (if bpopular s (s ! 0) then 0 else 1)"
| "run_len s (Suc m) = (if bpopular s (s ! Suc m) then 0 else run_len s m + 1)"

text \<open>Two papers without a title.\<close>

definition untitled_example :: "unit paper list" where
  "untitled_example =
     [example_paper [] 0 [(''main'', ''u1'')], example_paper [] 2 [(''pdf'', ''u2'')]]"

section \<open>Properties of the classifier\<close>

lemma py_in_sublist: "py_in t s \<longleftrightarrow> sublist t s"
  by (induction s) (simp_all add: sublist_Cons_right)

lemma py_in_iff: "py_in t s \<longleftrightarrow> (\<exists>ps ss. s = ps @ t @ ss)"
  by (simp add: py_in_sublist sublist_def)

lemmas string_defs =
  py_lower_def lower_char_def upper_letters_def lower_letters_def digits_def
  latin1_upper_def latin1_lower_def latin1_word_def

text \<open>
  Claim C7. The classifier answers true exactly when one of the fixed terms occurs as a
  substring of the lower-cased input, and it answers false on the empty string.
\<close>

theorem is_relevant_iff_substring:
  "(is_relevant_to_cervical_cancer text \<longleftrightarrow>
      (\<exists>term \<in> set relevant_terms. \<exists>ps ss. py_lower text = ps @ term @ ss))
   \<and> \<not> is_relevant_to_cervical_cancer []"
  by (simp add: is_relevant_to_cervical_cancer_def list_ex_iff py_in_iff)
     (simp add: relevant_terms_def py_lower_def)

theorem is_relevant_iff_substring_witness:
  "is_relevant_to_cervical_cancer ''Patient screened for cervical cancer''"
proof -
  have "py_lower ''Patient screened for cervical cancer''
          = ''patient screened for '' @ ''cervical cancer'' @ []"
    by code_simp
  moreover have "''cervical cancer'' \<in> set relevant_terms"
    by (simp add: relevant_terms_def)
  ultimately show ?thesis
    using is_relevant_iff_substring [of "''Patient screened for cervical cancer''"]
    by blast
qed

section \<open>Properties of the scorer\<close>

text \<open>
  Claim C10. A text can pass the classifier and still score 0: the title \<open>pap smear\<close>
  with an empty abstract holds a classifier term and no scorer keyword.
\<close>

theorem relevant_with_score_zero:
  "is_relevant_to_cervical_cancer ''pap smear''
   \<and> calculate_relevance_score ''pap smear'' [] = 0"
  by code_simp

section \<open>The second pass builds the clusters of the anchors\<close>

lemma fuzzy_inner_fold:
  "distinct js \<Longrightarrow>
   fold (fuzzy_inner ts p) js (d, Q) =
     (d @ map ((!) ts) (filter (\<lambda>j. j \<notin> Q \<and> similar p (ts ! j)) js),
      Q \<union> {j \<in> set js. j \<notin> Q \<and> similar p (ts ! j)})"
proof (induction js arbitrary: d Q)
  case Nil
  then show ?case by simp
next
  case (Cons j js)
  have dj: "distinct js" and nj: "j \<notin> set js" using Cons.prems by simp_all
  show ?case
  proof (cases "j \<in> Q")
    case True
    then have "fold (fuzzy_inner ts p) (j # js) (d, Q) = fold (fuzzy_inner ts p) js (d, Q)"
      by (simp add: fuzzy_inner_def)
    also note Cons.IH [OF dj]
    finally show ?thesis using True by auto
  next
    case notin: False
    show ?thesis
    proof (cases "similar p (ts ! j)")
      case True
      have eq: "filter (\<lambda>j'. j' \<notin> insert j Q \<and> similar p (ts ! j')) js
                = filter (\<lambda>j'. j' \<notin> Q \<and> similar p (ts ! j')) js"
        using nj by (intro filter_cong) auto
      have eq2: "{j' \<in> set js. j' \<notin> insert j Q \<and> similar p (ts ! j')}
                = {j' \<in> set js. j' \<notin> Q \<and> similar p (ts ! j')}"
        using nj by auto
      have "fold (fuzzy_inner ts p) (j # js) (d, Q)
            = fold (fuzzy_inner ts p) js (d @ [ts ! j], insert j Q)"
        using notin True by (simp add: fuzzy_inner_def similar_def Let_def)
      also have "\<dots> = ((d @ [ts ! j]) @ map ((!) ts)
                           (filter (\<lambda>j'. j' \<notin> Q \<and> similar p (ts ! j')) js),
                        insert j Q \<union> {j' \<in> set js. j' \<notin> Q \<and> similar p (ts ! j')})"
        unfolding Cons.IH [OF dj] eq eq2 ..
      finally show ?thesis using notin True by auto
    next
      case False
      have "fold (fuzzy_inner ts p) (j # js) (d, Q) = fold (fuzzy_inner ts p) js (d, Q)"
        using notin False by (simp add: fuzzy_inner_def similar_def Let_def)
      also note Cons.IH [OF dj]
      finally show ?thesis using notin False by auto
    qed
  qed
qed

lemma fuzzy_outer_fold:
  "fst (fold (fuzzy_outer ts) [i..<length ts] (out, P))
     = out @ map merge_duplicates (anchor_clusters (unprocessed ts P i))"
proof (induction "length ts - i" arbitrary: i out P)
  case 0
  then show ?case by (simp add: unprocessed_def)
next
  case (Suc k)
  then have lt: "i < length ts" and k: "k = length ts - Suc i" by simp_all
  have upt: "[i..<length ts] = i # [Suc i..<length ts]" using lt by (simp add: upt_conv_Cons)
  show ?case
  proof (cases "i \<in> P")
    case True
    have "unprocessed ts P i = unprocessed ts P (Suc i)"
      using True by (simp add: unprocessed_def upt)
    moreover have "fold (fuzzy_outer ts) [i..<length ts] (out, P)
                   = fold (fuzzy_outer ts) [Suc i..<length ts] (out, P)"
      using True by (simp add: upt fuzzy_outer_def)
    ultimately show ?thesis using Suc.hyps(1) [OF k] by simp
  next
    case False
    define p where "p = ts ! i"
    define P' where "P' = insert i P \<union> {j \<in> set [Suc i..<length ts]. j \<notin> insert i P \<and> similar p (ts ! j)}"
    have filt: "filter (\<lambda>j. j \<notin> insert i P \<and> similar p (ts ! j)) [Suc i..<length ts]
                = filter (\<lambda>j. similar p (ts ! j)) (filter (\<lambda>j. j \<notin> P) [Suc i..<length ts])"
      by (auto intro!: filter_cong)
    have "fold (fuzzy_inner ts p) [Suc i..<length ts] ([p], insert i P)
          = ([p] @ map ((!) ts) (filter (\<lambda>j. j \<notin> insert i P \<and> similar p (ts ! j))
                                  [Suc i..<length ts]), P')"
      unfolding P'_def by (rule fuzzy_inner_fold) simp
    then have inner: "fold (fuzzy_inner ts p) [Suc i..<length ts] ([p], insert i P)
                 = (p # filter (similar p) (unprocessed ts P (Suc i)), P')"
      unfolding filt by (simp add: unprocessed_def filter_map comp_def)
    have step: "fold (fuzzy_outer ts) [i..<length ts] (out, P)
          = fold (fuzzy_outer ts) [Suc i..<length ts]
              (out @ [merge_duplicates (p # filter (similar p) (unprocessed ts P (Suc i)))], P')"
      using False inner by (simp add: upt fuzzy_outer_def p_def [symmetric] Let_def)
    have rest: "unprocessed ts P' (Suc i) = filter (\<lambda>q. \<not> similar p q) (unprocessed ts P (Suc i))"
      unfolding unprocessed_def filter_map comp_def
      by (rule arg_cong [where f = "map ((!) ts)"]) (auto simp: P'_def intro!: filter_cong)
    have un: "unprocessed ts P i = p # unprocessed ts P (Suc i)"
      using False by (simp add: unprocessed_def upt p_def)
    show ?thesis
      unfolding step Suc.hyps(1) [OF k] rest un by simp
  qed
qed

lemma fuzzy_pass_clusters:
  "fuzzy_pass ts = map merge_duplicates (anchor_clusters ts)"
proof -
  have "unprocessed ts {} 0 = ts"
    by (simp add: unprocessed_def map_nth)
  then show ?thesis
    using fuzzy_outer_fold [of ts 0 "[]" "{}"] by (simp add: fuzzy_pass_def)
qed

section \<open>The first pass\<close>

lemma update_fresh: "k \<notin> fst ` set al \<Longrightarrow> AList.update k v al = al @ [(k, v)]"
  by (induction al) auto

lemma set_update_subset: "set (AList.update k v al) \<subseteq> insert (k, v) (set al)"
  by (induction al) auto

lemma length_update_le: "length (AList.update k v al) \<le> Suc (length al)"
  by (induction al) auto

lemma length_update_present: "k \<in> fst ` set al \<Longrightarrow> length (AList.update k v al) = length al"
  by (induction al) auto

lemma exact_step_fresh:
  "norm_title p \<notin> fst ` set u \<Longrightarrow> exact_step p u = u @ [(norm_title p, p)]"
  by (simp add: exact_step_def norm_title_def map_of_eq_None_iff [THEN iffD2] update_fresh)

lemma exact_step_length: "length (exact_step p u) \<le> Suc (length u)"
proof (cases "map_of u (py_strip (py_lower (title p)))")
  case None
  then show ?thesis by (simp add: exact_step_def length_update_le)
next
  case (Some kept)
  then have "py_strip (py_lower (title p)) \<in> fst ` set u"
    by (metis domI dom_map_of_conv_image_fst)
  then show ?thesis
    using Some by (simp add: exact_step_def Let_def length_update_present dom_update)
qed

lemma update_links_cases:
  "update_links kept p = kept \<or> (\<exists>l. update_links kept p = kept\<lparr>links := l\<rparr>)"
  by (auto simp: update_links_def split: option.splits)

lemma exact_step_values:
  assumes "(t, q) \<in> set (exact_step p u)"
  shows "q = p \<or> (\<exists>q0 l. (t, q0) \<in> set u \<and> (q = q0 \<or> q = q0\<lparr>links := l\<rparr>))"
proof (cases "map_of u (py_strip (py_lower (title p)))")
  case None
  with assms set_update_subset [of "py_strip (py_lower (title p))" p u] show ?thesis
    by (auto simp: exact_step_def)
next
  case (Some kept)
  define n where "n = py_strip (py_lower (title p))"
  have kept: "(n, kept) \<in> set u"
    using Some unfolding n_def by (rule map_of_SomeD)
  have "(t, q) \<in> insert (n, p) (insert (n, update_links kept p) (set u))"
    using assms Some set_update_subset [of n p "AList.update n (update_links kept p) u"]
      set_update_subset [of n "update_links kept p" u]
    by (auto simp: exact_step_def Let_def n_def [symmetric] split: if_splits)
  then show ?thesis using update_links_cases [of kept p] kept by auto
qed

lemma exact_pass_values:
  assumes "(t, q) \<in> set (fold exact_step rs u)"
  shows "(\<exists>r l. r \<in> set rs \<and> (q = r \<or> q = r\<lparr>links := l\<rparr>))
         \<or> (\<exists>q0 l. (t, q0) \<in> set u \<and> (q = q0 \<or> q = q0\<lparr>links := l\<rparr>))"
  using assms
proof (induction rs arbitrary: u)
  case Nil
  then show ?case by auto
next
  case (Cons r rs)
  from Cons.IH [of "exact_step r u"] Cons.prems
  consider (a) r' l where "r' \<in> set rs" "q = r' \<or> q = r'\<lparr>links := l\<rparr>"
    | (b) q0 l where "(t, q0) \<in> set (exact_step r u)" "q = q0 \<or> q = q0\<lparr>links := l\<rparr>"
    by auto
  then show ?case
  proof cases
    case a
    then show ?thesis by auto
  next
    case b
    from exact_step_values [OF b(1)] b(2) show ?thesis
      by (elim disjE exE conjE) (simp_all, blast+)
  qed
qed

lemma exact_pass_length: "length (fold exact_step rs u) \<le> length u + length rs"
proof (induction rs arbitrary: u)
  case Nil
  then show ?case by simp
next
  case (Cons r rs)
  from Cons.IH [of "exact_step r u"] exact_step_length [of r u] show ?case by simp
qed

lemma exact_pass_distinct_titles:
  "distinct (map norm_title rs) \<Longrightarrow> exact_pass rs = map (\<lambda>p. (norm_title p, p)) rs"
proof (induction rs rule: rev_induct)
  case Nil
  then show ?case by (simp add: exact_pass_def)
next
  case (snoc r rs)
  then have ih: "exact_pass rs = map (\<lambda>p. (norm_title p, p)) rs"
    and fresh: "norm_title r \<notin> norm_title ` set rs"
    by simp_all
  have "norm_title r \<notin> fst ` set (exact_pass rs)"
    using fresh by (force simp: ih)
  then show ?case
    using ih by (simp add: exact_pass_def exact_step_fresh)
qed

section \<open>What the duplicate detection returns\<close>

lemma py_max_in: "py_max key best xs \<in> insert best (set xs)"
  by (induction xs arbitrary: best) auto

lemma py_max_anchor: "\<forall>x \<in> set xs. key x \<le> key best \<Longrightarrow> py_max key best xs = best"
  by (induction xs) auto

lemma merge_duplicates_single: "merge_duplicates [p] = p"
  by (simp add: merge_duplicates_def)

lemma merge_duplicates_member:
  assumes "c \<noteq> []"
  shows "\<exists>q \<in> set c. title (merge_duplicates c) = title q
           \<and> relevance_score (merge_duplicates c) = relevance_score q
           \<and> other_fields (merge_duplicates c) = other_fields q"
proof -
  obtain p ps where c: "c = p # ps" using assms by (cases c) auto
  have "py_max get_score p ps \<in> set c" using py_max_in [of get_score p ps] c by simp
  then show ?thesis
    by (auto simp: merge_duplicates_def c Let_def)
qed

lemma merge_duplicates_count:
  "length c > 1 \<Longrightarrow> duplicate_count (merge_duplicates c) = Some (length c)"
  by (simp add: merge_duplicates_def Let_def)

lemma merge_duplicates_small: "length c \<le> 1 \<Longrightarrow> merge_duplicates c = hd c"
  by (simp add: merge_duplicates_def Let_def)

lemma anchor_clusters_nonempty: "c \<in> set (anchor_clusters ps) \<Longrightarrow> c \<noteq> []"
  by (induction ps rule: anchor_clusters.induct) auto

lemma anchor_clusters_subset: "c \<in> set (anchor_clusters ps) \<Longrightarrow> set c \<subseteq> set ps"
  by (induction ps rule: anchor_clusters.induct) auto

lemma anchor_clusters_length: "length (anchor_clusters ps) \<le> length ps"
proof (induction ps rule: anchor_clusters.induct)
  case 1
  then show ?case by simp
next
  case (2 p ps)
  have "length (filter (\<lambda>q. \<not> similar p q) ps) \<le> length ps" by simp
  with 2 have "length (anchor_clusters (filter (\<lambda>q. \<not> similar p q) ps)) \<le> length ps"
    by (rule order_trans)
  then show ?case by simp
qed

lemma detect_duplicates_clusters:
  "detect_duplicates rs = map merge_duplicates (fuzzy_clusters rs)"
  by (simp add: detect_duplicates_def fuzzy_clusters_def fuzzy_pass_clusters)

lemma exact_pass_from_input:
  assumes "q \<in> snd ` set (exact_pass rs)"
  shows "\<exists>r \<in> set rs. title q = title r \<and> relevance_score q = relevance_score r
           \<and> other_fields q = other_fields r"
proof -
  from assms obtain t where "(t, q) \<in> set (fold exact_step rs [])"
    by (auto simp: exact_pass_def)
  from exact_pass_values [OF this] show ?thesis by auto
qed

text \<open>
  Claim C9. The output of the duplicate detection is drawn from its input: it is not longer
  than the input, and every paper of the output has the title and the relevance score of a
  paper of the input.
\<close>

theorem detect_duplicates_from_input:
  "length (detect_duplicates rs) \<le> length rs
   \<and> (\<forall>p \<in> set (detect_duplicates rs).
         \<exists>r \<in> set rs. title p = title r \<and> relevance_score p = relevance_score r)"
proof
  have "length (detect_duplicates rs) \<le> length (exact_pass rs)"
    using anchor_clusters_length [of "map snd (exact_pass rs)"]
    by (simp add: detect_duplicates_clusters fuzzy_clusters_def)
  also have "\<dots> \<le> length rs"
    using exact_pass_length [of rs "[]"] by (simp add: exact_pass_def)
  finally show "length (detect_duplicates rs) \<le> length rs" .
next
  show "\<forall>p \<in> set (detect_duplicates rs).
          \<exists>r \<in> set rs. title p = title r \<and> relevance_score p = relevance_score r"
  proof
    fix p assume "p \<in> set (detect_duplicates rs)"
    then obtain c where c: "c \<in> set (fuzzy_clusters rs)" and p: "p = merge_duplicates c"
      by (auto simp: detect_duplicates_clusters)
    from c have ne: "c \<noteq> []" and sub: "set c \<subseteq> snd ` set (exact_pass rs)"
      using anchor_clusters_nonempty anchor_clusters_subset
      by (fastforce simp: fuzzy_clusters_def)+
    from merge_duplicates_member [OF ne] obtain q where
      q: "q \<in> set c" "title p = title q" "relevance_score p = relevance_score q"
      unfolding p by blast
    from exact_pass_from_input [of q rs] q(1) sub obtain r where
      "r \<in> set rs" "title q = title r" "relevance_score q = relevance_score r" by blast
    with q show "\<exists>r \<in> set rs. title p = title r \<and> relevance_score p = relevance_score r"
      by auto
  qed
qed

lemma chain_example_result:
  "detect_duplicates chain_example =
     [\<lparr>title = ''abcdefgh'', relevance_score = Some 2,
       links = Some [(''pdf'', ''u1''), (''main'', ''u2'')],
       duplicate_count = Some 2, other_fields = ()\<rparr>,
      \<lparr>title = ''bcdefghi'', relevance_score = Some 0,
       links = Some [(''doi'', ''u3'')], duplicate_count = None, other_fields = ()\<rparr>]"
  by code_simp

theorem detect_duplicates_from_input_witness:
  "length (detect_duplicates chain_example) \<le> 3
   \<and> (\<exists>r \<in> set chain_example.
         title (hd (detect_duplicates chain_example)) = title r
         \<and> relevance_score (hd (detect_duplicates chain_example)) = relevance_score r)"
proof -
  have "hd (detect_duplicates chain_example) \<in> set (detect_duplicates chain_example)"
    by (simp add: chain_example_result)
  moreover have "length chain_example = 3" by (simp add: chain_example_def)
  ultimately show ?thesis
    using detect_duplicates_from_input [of chain_example] by auto
qed

section \<open>The examples, evaluated\<close>

lemma case_example_result:
  "detect_duplicates case_example =
     [\<lparr>title = ''hpv and cervical cancer screening'', relevance_score = Some 5,
       links = Some [(''main'', ''u2'')], duplicate_count = None, other_fields = ()\<rparr>]"
  by code_simp

lemma chain_example_clusters:
  "fuzzy_clusters chain_example =
     [[example_paper ''abcdefg'' 1 [(''pdf'', ''u1'')],
       example_paper ''abcdefgh'' 2 [(''main'', ''u2'')]],
      [example_paper ''bcdefghi'' 0 [(''doi'', ''u3'')]]]"
  by code_simp

lemma chain_example_similarities:
  "calculate_similarity ''abcdefg'' ''abcdefgh'' = 14 / 15"
  "calculate_similarity ''abcdefgh'' ''bcdefghi'' = 7 / 8"
  "calculate_similarity ''abcdefg'' ''bcdefghi'' = 4 / 5"
  by code_simp+

lemma chain_example_norm_titles:
  "map norm_title chain_example = [''abcdefg'', ''abcdefgh'', ''bcdefghi'']"
  by code_simp

text \<open>
  Characters beyond ASCII: \<open>U+00C9\<close> is a capital and a word character, \<open>U+00D7\<close> is
  neither, \<open>U+00A0\<close> and \<open>U+0085\<close> are white space.
\<close>

lemma latin1_examples:
  "py_lower [CHR 0xC9, CHR ''A'', CHR 0xD7] = [CHR 0xE9, CHR ''a'', CHR 0xD7]"
  "py_strip (''hpv screening'' @ [CHR 0xA0, CHR 0x85]) = ''hpv screening''"
  "calculate_relevance_score (''pr'' @ [CHR 0xE9] @ ''cervical'') [] = 0"
  "calculate_relevance_score ([CHR 0xC9] @ ''cervical'') [] = 0"
  by code_simp+

lemma space_example_similarities:
  "calculate_similarity ''abcdefgh '' ''abcdefgh'' = 16 / 17"
  "calculate_similarity ''abcdefgh '' ''bcdefghi'' = 14 / 17"
  by code_simp+

lemma space_example_result:
  "detect_duplicates space_example =
     [\<lparr>title = ''abcdefgh'', relevance_score = Some 2,
       links = Some [(''main'', ''u2''), (''doi'', ''u3'')],
       duplicate_count = Some 2, other_fields = ()\<rparr>]"
  by code_simp

section \<open>Anchor-only clustering\<close>

text \<open>
  Claim C4, as stated, fails on \<open>space_example\<close>. Its three titles have the similarities
  the claim asks for (16/17, 7/8 and 14/17), but the first two have the same key in the
  first pass: they collapse there, the second is kept for its score, and the second pass
  merges it with the third. One paper is returned, not the cluster of the first two and the
  third alone.
\<close>

theorem three_titles_collapse_first:
  "calculate_similarity ''abcdefgh '' ''abcdefgh'' > 85 / 100
   \<and> calculate_similarity ''abcdefgh'' ''bcdefghi'' > 85 / 100
   \<and> calculate_similarity ''abcdefgh '' ''bcdefghi'' \<le> 85 / 100
   \<and> map title space_example = [''abcdefgh '', ''abcdefgh'', ''bcdefghi'']
   \<and> map title (detect_duplicates space_example) = [''abcdefgh'']
   \<and> map duplicate_count (detect_duplicates space_example) = [Some 2]
   \<and> map links (detect_duplicates space_example) = [Some [(''main'', ''u2''), (''doi'', ''u3'')]]"
  by (simp add: space_example_similarities chain_example_similarities space_example_result)
     (simp add: space_example_def example_paper_def)

text \<open>
  Claim C4, amended. The second pass compares a later paper with the anchor of the cluster
  only: its result is the merge of the clusters of \<open>anchor_clusters\<close>, where a cluster is
  its anchor followed by the later papers that are similar to the anchor. For three papers
  \<open>A\<close>, \<open>B\<close>, \<open>C\<close> with \<open>A\<close> similar to \<open>B\<close>, \<open>B\<close> similar to \<open>C\<close> and \<open>A\<close> not
  similar to \<open>C\<close>, the clusters of the second pass are \<open>{A, B}\<close> and \<open>{C}\<close>; when their
  first-pass keys are pairwise distinct, so that all three reach the second pass, this is
  what \<open>detect_duplicates\<close> returns.
\<close>

theorem fuzzy_pass_anchor_only:
  "fuzzy_pass ts = map merge_duplicates (anchor_clusters ts)
   \<and> (calculate_similarity (title A) (title B) > 85 / 100
        \<and> calculate_similarity (title B) (title C) > 85 / 100
        \<and> calculate_similarity (title A) (title C) \<le> 85 / 100
      \<longrightarrow> anchor_clusters [A, B, C] = [[A, B], [C]]
          \<and> fuzzy_pass [A, B, C] = [merge_duplicates [A, B], C]
          \<and> (distinct [norm_title A, norm_title B, norm_title C]
               \<longrightarrow> detect_duplicates [A, B, C] = [merge_duplicates [A, B], C]))"
proof (intro conjI impI)
  show "fuzzy_pass ts = map merge_duplicates (anchor_clusters ts)"
    by (rule fuzzy_pass_clusters)
next
  assume sim: "calculate_similarity (title A) (title B) > 85 / 100
        \<and> calculate_similarity (title B) (title C) > 85 / 100
        \<and> calculate_similarity (title A) (title C) \<le> 85 / 100"
  then show cl: "anchor_clusters [A, B, C] = [[A, B], [C]]"
    by (simp add: similar_def)
  then show fp: "fuzzy_pass [A, B, C] = [merge_duplicates [A, B], C]"
    by (simp add: fuzzy_pass_clusters merge_duplicates_single)
  assume "distinct [norm_title A, norm_title B, norm_title C]"
  then have "map snd (exact_pass [A, B, C]) = [A, B, C]"
    using exact_pass_distinct_titles [of "[A, B, C]"] by simp
  then show "detect_duplicates [A, B, C] = [merge_duplicates [A, B], C]"
    using fp by (simp add: detect_duplicates_def)
qed

theorem fuzzy_pass_anchor_only_witness:
  "detect_duplicates chain_example =
     [merge_duplicates [example_paper ''abcdefg'' 1 [(''pdf'', ''u1'')],
                        example_paper ''abcdefgh'' 2 [(''main'', ''u2'')]],
      example_paper ''bcdefghi'' 0 [(''doi'', ''u3'')]]"
proof -
  let ?A = "example_paper ''abcdefg'' 1 [(''pdf'', ''u1'')]"
  let ?B = "example_paper ''abcdefgh'' 2 [(''main'', ''u2'')]"
  let ?C = "example_paper ''bcdefghi'' 0 [(''doi'', ''u3'')]"
  have sim: "calculate_similarity (title ?A) (title ?B) > 85 / 100
        \<and> calculate_similarity (title ?B) (title ?C) > 85 / 100
        \<and> calculate_similarity (title ?A) (title ?C) \<le> 85 / 100"
    by (simp add: example_paper_def chain_example_similarities)
  have dist: "distinct [norm_title ?A, norm_title ?B, norm_title ?C]"
    using chain_example_norm_titles by (simp add: chain_example_def)
  note th = fuzzy_pass_anchor_only [of "[]" ?A ?B ?C, THEN conjunct2, THEN mp, OF sim]
  show ?thesis
    unfolding chain_example_def
    by (rule th [THEN conjunct2, THEN conjunct2, THEN mp, OF dist])
qed

section \<open>Links and duplicate counts\<close>

text \<open>
  Claim C1. The first pass is meant to give the kept paper the links of every paper with
  the same key. On \<open>case_example\<close> it does not: the links of the first paper are merged
  into the first paper, which is then replaced by the second, and the key \<open>pdf\<close> is gone
  from the result.
\<close>

theorem exact_pass_loses_links:
  "map (\<lambda>p. (relevance_score p, links p)) (detect_duplicates case_example)
     = [(Some 5, Some [(''main'', ''u2'')])]"
  by (simp add: case_example_result)

text \<open>
  Claim C2, as stated, fails on \<open>case_example\<close>: the two papers collapse in the first pass
  and the paper that is returned has no \<open>duplicate_count\<close>, where the claim says 2.
\<close>

theorem duplicate_count_missing:
  "map duplicate_count (detect_duplicates case_example) = [None]"
  by (simp add: case_example_result)

section \<open>The ranking\<close>

lemma tie_example_result: "detect_duplicates tie_example = tie_example"
  by code_simp

text \<open>
  Claim C5. The output of the pipeline is sorted by relevance score in descending order, and
  the sort is stable: for every score, the papers with that score stand in the order in
  which the duplicate detection returned them.
\<close>

theorem search_all_sources_sorted_stable:
  "sorted_wrt (\<lambda>p q. get_score p \<ge> get_score q) (search_all_sources all_results)
   \<and> filter (\<lambda>p. get_score p = s) (search_all_sources all_results)
       = filter (\<lambda>p. get_score p = s) (detect_duplicates all_results)"
proof
  have "sorted (map (\<lambda>x. - get_score x) (search_all_sources all_results))"
    by (simp add: search_all_sources_def)
  then show "sorted_wrt (\<lambda>p q. get_score p \<ge> get_score q) (search_all_sources all_results)"
    by (simp add: sorted_map)
next
  have "filter (\<lambda>p. - get_score p = - s) (search_all_sources all_results)
        = filter (\<lambda>p. - get_score p = - s) (detect_duplicates all_results)"
    unfolding search_all_sources_def Let_def by (rule sort_key_stable)
  then show "filter (\<lambda>p. get_score p = s) (search_all_sources all_results)
       = filter (\<lambda>p. get_score p = s) (detect_duplicates all_results)"
    by simp
qed

theorem search_all_sources_sorted_stable_witness:
  "filter (\<lambda>p. get_score p = 3) (search_all_sources tie_example)
     = [example_paper ''colposcopy atlas'' 3 [],
        example_paper ''cervical screening programme'' 3 []]"
  using search_all_sources_sorted_stable [of tie_example 3]
  by (simp add: tie_example_result) (simp add: tie_example_def example_paper_def get_score_def)

section \<open>A second run of the duplicate detection\<close>

lemma anchor_clusters_hd_member:
  "c \<in> set (anchor_clusters ps) \<Longrightarrow> hd c \<in> set ps"
  using anchor_clusters_nonempty [of c ps] anchor_clusters_subset [of c ps]
  by (cases c) auto

lemma anchors_not_similar:
  "sorted_wrt (\<lambda>x y. \<not> similar x y) (map hd (anchor_clusters ps))"
proof (induction ps rule: anchor_clusters.induct)
  case 1
  then show ?case by simp
next
  case (2 p ps)
  have "\<not> similar p (hd c)" if "c \<in> set (anchor_clusters (filter (\<lambda>q. \<not> similar p q) ps))" for c
    using anchor_clusters_hd_member [OF that] by simp
  with 2 show ?case by simp
qed

lemma anchor_clusters_singletons:
  "sorted_wrt (\<lambda>x y. \<not> similar x y) xs \<Longrightarrow> anchor_clusters xs = map (\<lambda>x. [x]) xs"
proof (induction xs)
  case Nil
  then show ?case by simp
next
  case (Cons x xs)
  then have no: "\<forall>y \<in> set xs. \<not> similar x y" by simp
  then have "filter (similar x) xs = []" and "filter (\<lambda>q. \<not> similar x q) xs = xs"
    by (simp_all add: filter_empty_conv)
  with Cons show ?case by simp
qed

lemma clusters_distinct_image:
  assumes "distinct (map f ps)" and "\<forall>c \<in> set (anchor_clusters ps). g c \<in> f ` set c"
  shows "distinct (map g (anchor_clusters ps))"
  using assms
proof (induction ps rule: anchor_clusters.induct)
  case 1
  then show ?case by simp
next
  case (2 p ps)
  let ?rest = "filter (\<lambda>q. \<not> similar p q) ps"
  let ?c0 = "p # filter (similar p) ps"
  have inj: "inj_on f (set (p # ps))"
    using "2.prems"(1) unfolding distinct_map by (rule conjunct2)
  have "distinct (map f ?rest)" using "2.prems"(1) by (simp add: distinct_map_filter)
  moreover have "\<forall>c \<in> set (anchor_clusters ?rest). g c \<in> f ` set c" using "2.prems"(2) by simp
  ultimately have ih: "distinct (map g (anchor_clusters ?rest))" by (rule "2.IH")
  have "g ?c0 \<noteq> g c" if c: "c \<in> set (anchor_clusters ?rest)" for c
  proof
    assume eq: "g ?c0 = g c"
    from "2.prems"(2) obtain x where x: "x \<in> set ?c0" "g ?c0 = f x" by auto
    from "2.prems"(2) c obtain y where y: "y \<in> set c" "g c = f y" by auto
    from y(1) anchor_clusters_subset [OF c] have y': "y \<in> set ?rest" by auto
    have xin: "x \<in> set (p # ps)" and yin: "y \<in> set (p # ps)" using x(1) y' by auto
    have "f x = f y" using eq x(2) y(2) by simp
    from inj_onD [OF inj this xin yin] have "x = y" .
    with x(1) y' "2.prems"(1) show False by auto
  qed
  with ih show ?case by auto
qed

lemma update_links_title [simp]: "title (update_links kept p) = title kept"
  by (simp add: update_links_def split: option.splits)

lemma update_links_norm_title [simp]: "norm_title (update_links kept p) = norm_title kept"
  by (simp add: norm_title_def)

lemma exact_step_subset:
  "set (exact_step p u) \<subseteq>
     insert (norm_title p, p)
       (set u \<union> {(norm_title p, update_links kept p) | kept. (norm_title p, kept) \<in> set u})"
proof (cases "map_of u (norm_title p)")
  case None
  with set_update_subset [of "norm_title p" p u] show ?thesis
    by (auto simp: exact_step_def norm_title_def)
next
  case (Some kept)
  have kept: "(norm_title p, kept) \<in> set u"
    using Some by (rule map_of_SomeD)
  show ?thesis
    using Some kept set_update_subset [of "norm_title p" p "AList.update (norm_title p) (update_links kept p) u"]
      set_update_subset [of "norm_title p" "update_links kept p" u]
    by (auto simp: exact_step_def Let_def norm_title_def [symmetric] split: if_splits)
qed

lemma exact_step_keys:
  assumes "\<forall>(t, q) \<in> set u. t = norm_title q"
  shows "\<forall>(t, q) \<in> set (exact_step p u). t = norm_title q"
  using assms exact_step_subset [of p u] by fastforce

lemma exact_step_distinct:
  "distinct (map fst u) \<Longrightarrow> distinct (map fst (exact_step p u))"
  by (simp add: exact_step_def Let_def distinct_update split: option.splits)

lemma exact_pass_keys_fold:
  assumes "\<forall>(t, q) \<in> set u. t = norm_title q" and "distinct (map fst u)"
  shows "(\<forall>(t, q) \<in> set (fold exact_step rs u). t = norm_title q)
         \<and> distinct (map fst (fold exact_step rs u))"
  using assms
proof (induction rs arbitrary: u)
  case Nil
  then show ?case by simp
next
  case (Cons r rs)
  show ?case
    using Cons.IH [OF exact_step_keys [OF Cons.prems(1)] exact_step_distinct [OF Cons.prems(2)]]
    by simp
qed

lemma exact_pass_norm_titles:
  "distinct (map norm_title (map snd (exact_pass rs)))"
proof -
  from exact_pass_keys_fold [of "[]" rs]
  have k: "\<forall>(t, q) \<in> set (exact_pass rs). t = norm_title q"
    and d: "distinct (map fst (exact_pass rs))"
    by (simp_all add: exact_pass_def)
  have e: "map (\<lambda>x. norm_title (snd x)) (exact_pass rs) = map fst (exact_pass rs)"
    by (rule map_cong) (use k in auto)
  have "distinct (map (\<lambda>x. norm_title (snd x)) (exact_pass rs))"
    unfolding e by (rule d)
  then show ?thesis by (simp add: comp_def)
qed

lemma merge_duplicates_norm_title:
  assumes "c \<noteq> []"
  shows "norm_title (merge_duplicates c) \<in> norm_title ` set c"
  using merge_duplicates_member [OF assms] by (auto simp: norm_title_def)

lemma detect_duplicates_norm_titles:
  "distinct (map norm_title (detect_duplicates rs))"
proof -
  have "distinct (map (\<lambda>c. norm_title (merge_duplicates c)) (fuzzy_clusters rs))"
    unfolding fuzzy_clusters_def
  proof (rule clusters_distinct_image [where f = norm_title])
    show "distinct (map norm_title (map snd (exact_pass rs)))"
      by (rule exact_pass_norm_titles)
    show "\<forall>c \<in> set (anchor_clusters (map snd (exact_pass rs))).
            norm_title (merge_duplicates c) \<in> norm_title ` set c"
      using anchor_clusters_nonempty merge_duplicates_norm_title by blast
  qed
  then show ?thesis
    by (simp add: detect_duplicates_clusters comp_def)
qed

lemma second_exact_pass:
  "map snd (exact_pass (detect_duplicates rs)) = detect_duplicates rs"
  using exact_pass_distinct_titles [OF detect_duplicates_norm_titles [of rs]]
  by (simp add: comp_def)

lemma merge_duplicates_anchor_title:
  assumes "c \<noteq> []" and "\<forall>p \<in> set c. get_score p \<le> get_score (hd c)"
  shows "title (merge_duplicates c) = title (hd c)"
proof -
  obtain a m where c: "c = a # m" using assms(1) by (cases c) auto
  have "py_max get_score a m = a"
    using assms(2) by (intro py_max_anchor) (simp add: c)
  then show ?thesis by (simp add: merge_duplicates_def c Let_def)
qed

lemma second_run_clusters:
  assumes "\<forall>c \<in> set (fuzzy_clusters rs). \<forall>p \<in> set c. get_score p \<le> get_score (hd c)"
  shows "fuzzy_clusters (detect_duplicates rs) = map (\<lambda>p. [p]) (detect_duplicates rs)"
proof -
  let ?cs = "fuzzy_clusters rs"
  have titles: "map title (detect_duplicates rs) = map title (map hd ?cs)"
    using assms anchor_clusters_nonempty
    by (auto simp: detect_duplicates_clusters fuzzy_clusters_def
          intro!: merge_duplicates_anchor_title)
  have "sorted_wrt (\<lambda>x y. \<not> similar x y) (map hd ?cs)"
    unfolding fuzzy_clusters_def by (rule anchors_not_similar)
  then have "sorted_wrt (\<lambda>s t. \<not> calculate_similarity s t > 85 / 100) (map title (map hd ?cs))"
    unfolding sorted_wrt_map [of _ title] by (simp add: similar_def)
  then have "sorted_wrt (\<lambda>s t. \<not> calculate_similarity s t > 85 / 100)
               (map title (detect_duplicates rs))"
    by (simp only: titles)
  then have "sorted_wrt (\<lambda>x y. \<not> similar x y) (detect_duplicates rs)"
    unfolding sorted_wrt_map [of _ title] by (simp add: similar_def)
  then show ?thesis
    unfolding fuzzy_clusters_def second_exact_pass by (rule anchor_clusters_singletons)
qed

lemma anchor_best_clusters:
  "fuzzy_clusters anchor_best_example =
     [[example_paper ''abcdefg'' 2 [(''pdf'', ''u1'')],
       example_paper ''abcdefgh'' 1 [(''main'', ''u2'')]],
      [example_paper ''bcdefghi'' 0 [(''doi'', ''u3'')]]]"
  by code_simp

lemma anchor_best_result:
  "detect_duplicates anchor_best_example =
     [\<lparr>title = ''abcdefg'', relevance_score = Some 2,
       links = Some [(''pdf'', ''u1''), (''main'', ''u2'')],
       duplicate_count = Some 2, other_fields = ()\<rparr>,
      \<lparr>title = ''bcdefghi'', relevance_score = Some 0,
       links = Some [(''doi'', ''u3'')], duplicate_count = None, other_fields = ()\<rparr>]"
  by code_simp

text \<open>
  Claim C3, as stated, fails on \<open>chain_example\<close>. The first run forms the clusters
  \<open>{abcdefg, abcdefgh}\<close> and \<open>{bcdefghi}\<close> and keeps \<open>abcdefgh\<close> for the first, since it
  has the higher score. The second run starts from \<open>abcdefgh\<close>, which is similar to
  \<open>bcdefghi\<close>, and merges the two; it does so with the \<open>duplicate_count\<close> fields erased
  as well.
\<close>

theorem second_run_merges:
  "map length (fuzzy_clusters chain_example) = [2, 1]
   \<and> map length (fuzzy_clusters (detect_duplicates chain_example)) = [2]
   \<and> map length (fuzzy_clusters (map (\<lambda>p. p\<lparr>duplicate_count := None\<rparr>)
                                       (detect_duplicates chain_example))) = [2]
   \<and> length (detect_duplicates chain_example) = 2
   \<and> length (detect_duplicates (detect_duplicates chain_example)) = 1"
  by code_simp

text \<open>
  Claim C3, amended. The first pass of a second run merges nothing. When in every cluster of
  the first run no member has a higher score than the anchor, so that the anchors are the
  papers kept, every cluster of the second run is a singleton and the second run returns
  its input.
\<close>

theorem second_run_unchanged:
  "map snd (exact_pass (detect_duplicates rs)) = detect_duplicates rs
   \<and> ((\<forall>c \<in> set (fuzzy_clusters rs). \<forall>p \<in> set c. get_score p \<le> get_score (hd c))
       \<longrightarrow> fuzzy_clusters (detect_duplicates rs) = map (\<lambda>p. [p]) (detect_duplicates rs)
           \<and> detect_duplicates (detect_duplicates rs) = detect_duplicates rs)"
proof (intro conjI impI)
  show "map snd (exact_pass (detect_duplicates rs)) = detect_duplicates rs"
    by (rule second_exact_pass)
next
  assume h: "\<forall>c \<in> set (fuzzy_clusters rs). \<forall>p \<in> set c. get_score p \<le> get_score (hd c)"
  then show cl: "fuzzy_clusters (detect_duplicates rs) = map (\<lambda>p. [p]) (detect_duplicates rs)"
    by (rule second_run_clusters)
  show "detect_duplicates (detect_duplicates rs) = detect_duplicates rs"
    unfolding detect_duplicates_clusters [of "detect_duplicates rs"] cl
    by (simp add: comp_def merge_duplicates_single)
qed

theorem second_run_unchanged_witness:
  "detect_duplicates (detect_duplicates anchor_best_example) =
     [\<lparr>title = ''abcdefg'', relevance_score = Some 2,
       links = Some [(''pdf'', ''u1''), (''main'', ''u2'')],
       duplicate_count = Some 2, other_fields = ()\<rparr>,
      \<lparr>title = ''bcdefghi'', relevance_score = Some 0,
       links = Some [(''doi'', ''u3'')], duplicate_count = None, other_fields = ()\<rparr>]"
proof -
  have "\<forall>c \<in> set (fuzzy_clusters anchor_best_example).
          \<forall>p \<in> set c. get_score p \<le> get_score (hd c)"
    by (simp add: anchor_best_clusters example_paper_def get_score_def)
  with second_run_unchanged [of anchor_best_example]
  have "detect_duplicates (detect_duplicates anchor_best_example)
        = detect_duplicates anchor_best_example"
    by blast
  then show ?thesis by (simp add: anchor_best_result)
qed

section \<open>The scorer counts tokens\<close>

lemma char_at_Cons_Suc [simp]: "char_at (c # cs) (Suc i) = char_at cs i"
  by (simp add: char_at_def)

lemma char_at_Cons_0 [simp]: "char_at (c # cs) 0 = Some c"
  by (simp add: char_at_def)

lemma match_at_Suc: "match_at kw prev (c # cs) (Suc i) = match_at kw (Some c) cs i"
  by (cases i) (simp_all add: match_at_def)

lemma match_at_0:
  "match_at kw prev (c # cs) 0 =
     (prefix kw (c # cs) \<and> kw \<noteq> [] \<and> boundary prev (Some c)
      \<and> boundary (Some (last kw)) (char_at (c # cs) (length kw)))"
  by (simp add: match_at_def)

lemma filter_upt_Suc:
  "filter P [0..<Suc n] = (if P 0 then [0] else []) @ map Suc (filter (\<lambda>i. P (Suc i)) [0..<n])"
proof -
  have "[0..<Suc n] = 0 # map Suc [0..<n]"
    by (simp add: upt_conv_Cons map_Suc_upt del: upt_Suc)
  then show ?thesis by (simp add: filter_map comp_def del: upt_Suc)
qed

lemma upt_split_shift: "m \<le> n \<Longrightarrow> [0..<n] = [0..<m] @ map ((+) m) [0..<n - m]"
  by (rule nth_equalityI) (auto simp: nth_append)

lemma match_at_shift:
  "m \<le> length text \<Longrightarrow>
   match_at kw prev text (m + i)
     = match_at kw (if m = 0 then prev else Some (text ! (m - 1))) (drop m text) i"
proof (induction m arbitrary: prev "text")
  case 0
  then show ?case by simp
next
  case (Suc m)
  then obtain c cs where t: "text = c # cs" by (cases "text") auto
  with Suc.prems have "m \<le> length cs" by simp
  from Suc.IH [OF this, of "Some c"] show ?case
    by (cases m) (simp_all add: t match_at_Suc)
qed

lemma no_match_inside:
  assumes "prefix kw text" and "no_overlap kw" and "1 \<le> k" and "k < length kw"
  shows "\<not> match_at kw prev text k"
proof
  assume m: "match_at kw prev text k"
  from assms(1) obtain rest where t: "text = kw @ rest" by (auto simp: prefix_def)
  have p1: "prefix kw (drop k kw @ rest)" using m assms(4) by (simp add: match_at_def t)
  have p2: "prefix (drop k kw) (drop k kw @ rest)" by simp
  from p2 p1 have p: "prefix (drop k kw) kw"
    by (rule prefix_length_prefix) simp
  have k1: "k - 1 < length kw" using assms(4) by simp
  have "text ! (k - 1) = kw ! (k - 1)" "text ! k = kw ! k" "k < length text"
    using assms(4) k1 by (simp_all add: t nth_append)
  with m assms(3) have b: "boundary (Some (kw ! (k - 1))) (Some (kw ! k))"
    by (simp add: match_at_def char_at_def)
  from assms(2) assms(3,4) have "\<not> (prefix (drop k kw) kw \<and> boundary (Some (kw ! (k - 1))) (Some (kw ! k)))"
    by (simp add: no_overlap_def list_all_iff)
  with p b show False by simp
qed

lemma findall_positions:
  assumes "no_overlap kw"
  shows "findall kw pos prev text
         = map ((+) pos) (filter (match_at kw prev text) [0..<length text])"
  using assms
proof (induction kw pos prev "text" rule: findall.induct)
  case (1 kw pos prev)
  then show ?case by simp
next
  case (2 kw pos prev c cs)
  let ?L = "length kw"
  show ?case
  proof (cases "match_at kw prev (c # cs) 0")
    case False
    then have "findall kw pos prev (c # cs) = findall kw (pos + 1) (Some c) cs"
      by (auto simp: match_at_0)
    also have "\<dots> = map ((+) (pos + 1)) (filter (match_at kw (Some c) cs) [0..<length cs])"
      using False "2.IH"(2) "2.prems" by (auto simp: match_at_0)
    finally show ?thesis
      using False by (simp add: filter_upt_Suc match_at_Suc comp_def del: upt_Suc)
  next
    case True
    then have pre: "prefix kw (c # cs)" and ne: "kw \<noteq> []" by (simp_all add: match_at_0)
    then have L: "1 \<le> ?L" "?L - 1 \<le> length cs"
      by (cases kw; auto dest: prefix_length_le)+
    define m where "m = ?L - 1"
    have fa: "findall kw pos prev (c # cs)
              = pos # findall kw (pos + ?L) (Some (last kw)) (drop m cs)"
      using True by (simp add: match_at_0 m_def)
    have ih: "findall kw (pos + ?L) (Some (last kw)) (drop m cs)
              = map ((+) (pos + ?L))
                  (filter (match_at kw (Some (last kw)) (drop m cs)) [0..<length cs - m])"
      using True "2.IH"(1) "2.prems" by (simp add: match_at_0 m_def)
    have split: "[0..<length cs] = [0..<m] @ map ((+) m) [0..<length cs - m]"
      using L(2) unfolding m_def by (rule upt_split_shift)
    have none: "filter (match_at kw (Some c) cs) [0..<m] = []"
    proof -
      have "\<not> match_at kw (Some c) cs i" if "i < m" for i
        using no_match_inside [OF pre "2.prems", of "Suc i" prev] that
        by (simp add: match_at_Suc m_def)
      then show ?thesis by (simp add: filter_empty_conv)
    qed
    have lastc: "(if m = 0 then Some c else Some (cs ! (m - 1))) = Some (last kw)"
    proof -
      from pre obtain rest where t: "c # cs = kw @ rest" by (auto simp: prefix_def)
      have "m < length kw" using L(1) by (simp add: m_def)
      then have "(c # cs) ! m = kw ! m" by (simp add: t nth_append)
      also have "\<dots> = last kw" using ne by (simp add: last_conv_nth m_def)
      finally show ?thesis by (cases m) simp_all
    qed
    have shift: "match_at kw (Some c) cs (m + i) = match_at kw (Some (last kw)) (drop m cs) i" for i
      using match_at_shift [of m cs kw "Some c" i] L(2) lastc by (simp add: m_def)
    have "filter (match_at kw (Some c) cs) [0..<length cs]
          = map ((+) m) (filter (match_at kw (Some (last kw)) (drop m cs)) [0..<length cs - m])"
      by (simp add: split none filter_map comp_def shift)
    then have "map ((+) pos) (filter (match_at kw prev (c # cs)) [0..<length (c # cs)])
          = pos # map ((+) (pos + ?L))
                    (filter (match_at kw (Some (last kw)) (drop m cs)) [0..<length cs - m])"
      using True L(1) by (auto simp add: filter_upt_Suc match_at_Suc comp_def m_def simp del: upt_Suc)
    then show ?thesis by (simp only: fa ih)
  qed
qed


lemma match_at_token:
  assumes "kw \<noteq> []" and "is_word_char (hd kw)" and "is_word_char (last kw)"
    and "p < length s"
  shows "match_at kw None s p = token_match_at kw s p"
proof (cases "prefix kw (drop p s)")
  case False
  then have "take (length kw) (drop p s) \<noteq> kw"
    by (metis take_is_prefix)
  with False show ?thesis by (simp add: match_at_def token_match_at_def)
next
  case True
  then obtain rest where d: "drop p s = kw @ rest" by (auto simp: prefix_def)
  then have tk: "take (length kw) (drop p s) = kw" by simp
  have "s ! p = hd (drop p s)" using assms(4) by (simp add: hd_drop_conv_nth)
  also have "\<dots> = hd kw" using assms(1) by (simp add: d)
  finally have w: "is_word_char (s ! p)" using assms(2) by simp
  show ?thesis
    using True tk w assms(1,3,4)
    by (auto simp: match_at_def token_match_at_def boundary_def is_word_def char_at_def)
qed

lemma findall_tokens:
  assumes "good_keyword kw"
  shows "findall kw 0 None s = filter (token_match_at kw s) [0..<length s]"
proof -
  have "findall kw 0 None s = filter (match_at kw None s) [0..<length s]"
    using findall_positions [of kw 0 None s] assms
    by (simp add: good_keyword_def map_idI)
  also have "\<dots> = filter (token_match_at kw s) [0..<length s]"
    using assms by (intro filter_cong refl match_at_token) (simp_all add: good_keyword_def)
  finally show ?thesis .
qed

lemma keywords_good: "list_all (\<lambda>(kw, w). good_keyword kw \<and> 0 \<le> w) keywords_table"
  by code_simp

lemma fold_score_sum:
  "fold (\<lambda>(keyword, weight) score. score + int (c keyword) * weight) tab acc
     = acc + (\<Sum>(keyword, weight) \<leftarrow> tab. weight * int (c keyword))"
  by (induction tab arbitrary: acc) (auto simp: algebra_simps)


text \<open>
  Claim C6. The relevance score is the sum over the keyword table of the weight times the
  number of positions of the lower-cased text \<open>title + " " + abstract\<close> where the keyword
  stands as a token, that is with no word character before and none after it, so that a
  keyword inside a longer token is not counted. The table holds the eight weights that the
  specification names, and the score is never negative.
\<close>

theorem calculate_relevance_score_sum:
  "calculate_relevance_score t a =
     (\<Sum>(keyword, weight) \<leftarrow> keywords_table.
        weight * int (length (filter (token_match_at keyword (py_lower (t @ '' '' @ a)))
                                [0..<length (py_lower (t @ '' '' @ a))])))
   \<and> map_of keywords_table ''iarc colposcopy database'' = Some 5
   \<and> map_of keywords_table ''colposcopy image'' = Some 4
   \<and> map_of keywords_table ''cervical cancer'' = Some 3
   \<and> map_of keywords_table ''colposcopy'' = Some 3
   \<and> map_of keywords_table ''cervical'' = Some 2
   \<and> map_of keywords_table ''hpv'' = Some 2
   \<and> map_of keywords_table ''screening'' = Some 1
   \<and> map_of keywords_table ''dataset'' = Some 1
   \<and> 0 \<le> calculate_relevance_score t a"
proof -
  define s where "s = py_lower (t @ '' '' @ a)"
  have good: "good_keyword kw" "0 \<le> w" if "(kw, w) \<in> set keywords_table" for kw w
    using keywords_good that by (auto simp: list_all_iff)
  have "calculate_relevance_score t a
        = 0 + (\<Sum>(keyword, weight) \<leftarrow> keywords_table.
                 weight * int (length (findall keyword 0 None s)))"
    unfolding calculate_relevance_score_def Let_def s_def
    by (rule fold_score_sum [where c = "\<lambda>keyword. length (findall keyword 0 None _)"])
  then have "calculate_relevance_score t a
        = (\<Sum>(keyword, weight) \<leftarrow> keywords_table.
             weight * int (length (findall keyword 0 None s)))"
    by simp
  also have "\<dots> = (\<Sum>(keyword, weight) \<leftarrow> keywords_table.
             weight * int (length (filter (token_match_at keyword s) [0..<length s])))"
    by (rule arg_cong [where f = sum_list], rule map_cong)
       (auto simp: findall_tokens good(1))
  finally have eq: "calculate_relevance_score t a
        = (\<Sum>(keyword, weight) \<leftarrow> keywords_table.
             weight * int (length (filter (token_match_at keyword s) [0..<length s])))" .
  have "0 \<le> (\<Sum>(keyword, weight) \<leftarrow> keywords_table.
             weight * int (length (filter (token_match_at keyword s) [0..<length s])))"
    by (rule sum_list_nonneg) (auto simp: good(2))
  then have nonneg: "0 \<le> calculate_relevance_score t a"
    by (simp only: eq)
  have tab: "map_of keywords_table ''iarc colposcopy database'' = Some 5"
    "map_of keywords_table ''colposcopy image'' = Some 4"
    "map_of keywords_table ''cervical cancer'' = Some 3"
    "map_of keywords_table ''colposcopy'' = Some 3"
    "map_of keywords_table ''cervical'' = Some 2"
    "map_of keywords_table ''hpv'' = Some 2"
    "map_of keywords_table ''screening'' = Some 1"
    "map_of keywords_table ''dataset'' = Some 1"
    by (simp_all add: keywords_table_def)
  from eq nonneg tab show ?thesis unfolding s_def by blast
qed

lemma score_example:
  "calculate_relevance_score ''Cervical cancer screening'' ''HPV in precervical dataset'' = 9"
  by code_simp

theorem calculate_relevance_score_sum_witness:
  "(\<Sum>(keyword, weight) \<leftarrow> keywords_table.
      weight * int (length (filter
        (token_match_at keyword
           (py_lower (''Cervical cancer screening'' @ '' '' @ ''HPV in precervical dataset'')))
        [0..<length (py_lower (''Cervical cancer screening'' @ '' '' @ ''HPV in precervical dataset''))])))
   = 9
   \<and> calculate_relevance_score (''pr'' @ [CHR 0xE9] @ ''cervical'') [] = 0"
proof
  show "(\<Sum>(keyword, weight) \<leftarrow> keywords_table.
      weight * int (length (filter
        (token_match_at keyword
           (py_lower (''Cervical cancer screening'' @ '' '' @ ''HPV in precervical dataset'')))
        [0..<length (py_lower (''Cervical cancer screening'' @ '' '' @ ''HPV in precervical dataset''))])))
   = 9"
    using calculate_relevance_score_sum
            [of "''Cervical cancer screening''" "''HPV in precervical dataset''", THEN conjunct1]
    by (simp only: score_example)
  show "calculate_relevance_score (''pr'' @ [CHR 0xE9] @ ''cervical'') [] = 0"
    by (rule latin1_examples)
qed

section \<open>A string is similar to itself\<close>

text \<open>
  When a string is matched against itself, the best match of the main loop of
  \<open>find_longest_match\<close> always lies on the diagonal: an entry of \<open>j2len\<close> off the diagonal
  is never larger than a diagonal entry that the loop has seen before. The two extension
  loops then stretch it over the whole string.
\<close>

lemma enumerate_positions:
  "map fst (filter (\<lambda>(i, e). P e) (enumerate k xs))
     = filter (\<lambda>j. P (xs ! (j - k))) [k..<k + length xs]"
proof (induction xs arbitrary: k)
  case Nil
  then show ?case by simp
next
  case (Cons x xs)
  have up: "[k..<k + length (x # xs)] = k # [Suc k..<Suc k + length xs]"
    by (simp add: upt_conv_Cons del: upt_Suc)
  have "filter (\<lambda>j. P ((x # xs) ! (j - k))) [Suc k..<Suc k + length xs]
        = filter (\<lambda>j. P (xs ! (j - Suc k))) [Suc k..<Suc k + length xs]"
    by (rule filter_cong) (auto simp: nth_Cons')
  with Cons [of "Suc k"] show ?case
    unfolding up by (simp del: upt_Suc)
qed

lemma b2j_all_positions: "b2j_all s c = filter (\<lambda>j. s ! j = c) [0..<length s]"
  using enumerate_positions [of "\<lambda>e. e = c" 0 s] by (simp add: b2j_all_def)

lemma b2j_sorted: "sorted_wrt (<) (b2j s c)"
  by (simp add: b2j_def b2j_all_positions sorted_wrt_filter)

lemma b2j_member:
  "j \<in> set (b2j s c) \<longleftrightarrow> j < length s \<and> s ! j = c \<and> \<not> bpopular s c"
  by (auto simp: b2j_def b2j_all_positions)

lemma run_len_step:
  "\<not> bpopular s (s ! j) \<Longrightarrow> run_len s j = (if j = 0 then 0 else run_len s (j - 1)) + 1"
  by (cases j) simp_all

lemma scan_row_diag:
  assumes "\<forall>j. j2len j \<le> (if i = 0 then 0 else run_len s (i - 1))"
    and "\<forall>j. j2len j \<le> run_len s j"
    and "0 < i \<longrightarrow> j2len (i - 1) = run_len s (i - 1)"
    and "sorted_wrt (<) js"
    and "\<forall>j \<in> set js. j < n \<and> s ! j = s ! i \<and> \<not> bpopular s (s ! i)"
    and "bi = bj"
    and "\<forall>m < i. run_len s m \<le> bs"
    and "i \<in> set js \<or> (run_len s i \<le> bs \<and> new i = run_len s i)"
    and "\<forall>j. new j \<le> run_len s i"
    and "\<forall>j. new j \<le> run_len s j"
    and "scan_row i 0 n j2len js (new, bi, bj, bs) = (new', bi', bj', bs')"
  shows "bi' = bj' \<and> (\<forall>m < i. run_len s m \<le> bs') \<and> run_len s i \<le> bs'
         \<and> new' i = run_len s i \<and> (\<forall>j. new' j \<le> run_len s i)
         \<and> (\<forall>j. new' j \<le> run_len s j)"
  using assms(4-11)
proof (induction js arbitrary: new bi bj bs)
  case Nil
  then show ?case by simp
next
  case (Cons j js)
  have jn: "j < n" and np: "\<not> bpopular s (s ! i)" and sj: "s ! j = s ! i"
    using Cons.prems(2) by simp_all
  have srt: "sorted_wrt (<) js" and gt: "\<forall>j' \<in> set js. j < j'"
    using Cons.prems(1) by simp_all
  have rest: "\<forall>j \<in> set js. j < n \<and> s ! j = s ! i \<and> \<not> bpopular s (s ! i)"
    using Cons.prems(2) by simp
  define k where "k = (if j = 0 then 0 else j2len (j - 1)) + 1"
  have ri: "run_len s i = (if i = 0 then 0 else run_len s (i - 1)) + 1"
    using np by (rule run_len_step)
  have rj: "run_len s j = (if j = 0 then 0 else run_len s (j - 1)) + 1"
    using np sj by (intro run_len_step) simp
  have kj: "k \<le> run_len s j"
    using assms(2) [rule_format, of "j - 1"] by (auto simp: k_def rj)
  have ki: "k \<le> run_len s i"
    using assms(1) [rule_format, of "j - 1"] by (auto simp: k_def ri)
  have new1: "\<forall>j'. (new(j := k)) j' \<le> run_len s i" using Cons.prems(6) ki by simp
  have new2: "\<forall>j'. (new(j := k)) j' \<le> run_len s j'" using Cons.prems(7) kj by simp
  consider (lt) "j < i" | (eq) "j = i" | (gt) "i < j" by linarith
  then show ?case
  proof cases
    case lt
    then have "k \<le> bs" using kj Cons.prems(4) by (meson le_trans)
    then have step: "scan_row i 0 n j2len js (new(j := k), bi, bj, bs) = (new', bi', bj', bs')"
      using Cons.prems(8) jn by (simp add: k_def Let_def)
    have third: "i \<in> set js \<or> (run_len s i \<le> bs \<and> (new(j := k)) i = run_len s i)"
      using Cons.prems(5) lt by auto
    from Cons.IH [OF srt rest Cons.prems(3) Cons.prems(4) third new1 new2 step]
    show ?thesis .
  next
    case eq
    have kr: "k = run_len s i"
      using assms(3) eq by (simp add: k_def ri)
    show ?thesis
    proof (cases "bs < k")
      case True
      have step: "scan_row i 0 n j2len js (new(j := k), i + 1 - k, j + 1 - k, k)
                  = (new', bi', bj', bs')"
        using Cons.prems(8) jn True by (simp add: k_def Let_def)
      have d: "i + 1 - k = j + 1 - k" using eq by simp
      have b: "\<forall>m < i. run_len s m \<le> k" using Cons.prems(4) True by (meson le_trans less_imp_le)
      have third: "i \<in> set js \<or> (run_len s i \<le> k \<and> (new(j := k)) i = run_len s i)"
        using kr eq by simp
      from Cons.IH [OF srt rest d b third new1 new2 step] show ?thesis .
    next
      case False
      have step: "scan_row i 0 n j2len js (new(j := k), bi, bj, bs) = (new', bi', bj', bs')"
        using Cons.prems(8) jn False by (simp add: k_def Let_def)
      have third: "i \<in> set js \<or> (run_len s i \<le> bs \<and> (new(j := k)) i = run_len s i)"
        using kr eq False by simp
      from Cons.IH [OF srt rest Cons.prems(3) Cons.prems(4) third new1 new2 step]
      show ?thesis .
    qed
  next
    case gt
    then have "i \<notin> set (j # js)" using \<open>\<forall>j' \<in> set js. j < j'\<close> by auto
    with Cons.prems(5) have dn: "run_len s i \<le> bs" "new i = run_len s i" by simp_all
    then have "k \<le> bs" using ki by simp
    then have step: "scan_row i 0 n j2len js (new(j := k), bi, bj, bs) = (new', bi', bj', bs')"
      using Cons.prems(8) jn by (simp add: k_def Let_def)
    have third: "i \<in> set js \<or> (run_len s i \<le> bs \<and> (new(j := k)) i = run_len s i)"
      using dn gt by simp
    from Cons.IH [OF srt rest Cons.prems(3) Cons.prems(4) third new1 new2 step]
    show ?thesis .
  qed
qed


lemma scan_rows_diag:
  assumes "m \<le> length s"
    and "fold (\<lambda>i (j2len, best). scan_row i 0 (length s) j2len (b2j s (s ! i)) (\<lambda>_. 0, best))
              [0..<m] (\<lambda>_. 0, 0, 0, 0) = (j2len, bi, bj, bs)"
  shows "bi = bj \<and> (\<forall>k < m. run_len s k \<le> bs)
         \<and> (\<forall>j. j2len j \<le> (if m = 0 then 0 else run_len s (m - 1)))
         \<and> (\<forall>j. j2len j \<le> run_len s j)
         \<and> (0 < m \<longrightarrow> j2len (m - 1) = run_len s (m - 1))"
  using assms
proof (induction m arbitrary: j2len bi bj bs)
  case 0
  then show ?case by auto
next
  case (Suc m)
  obtain j0 bi0 bj0 bs0 where prev:
    "fold (\<lambda>i (j2len, best). scan_row i 0 (length s) j2len (b2j s (s ! i)) (\<lambda>_. 0, best))
          [0..<m] (\<lambda>_. 0, 0, 0, 0) = (j0, bi0, bj0, bs0)"
    using prod_cases4 by blast
  have m: "m \<le> length s" "m < length s" using Suc.prems(1) by simp_all
  from Suc.IH [OF m(1) prev]
  have ih: "bi0 = bj0" "\<forall>k < m. run_len s k \<le> bs0"
    "\<forall>j. j0 j \<le> (if m = 0 then 0 else run_len s (m - 1))"
    "\<forall>j. j0 j \<le> run_len s j" "0 < m \<longrightarrow> j0 (m - 1) = run_len s (m - 1)"
    by simp_all
  have step: "scan_row m 0 (length s) j0 (b2j s (s ! m)) (\<lambda>_. 0, bi0, bj0, bs0)
              = (j2len, bi, bj, bs)"
    using Suc.prems(2) prev by simp
  have mem: "\<forall>j \<in> set (b2j s (s ! m)). j < length s \<and> s ! j = s ! m \<and> \<not> bpopular s (s ! m)"
    by (simp add: b2j_member)
  have third: "m \<in> set (b2j s (s ! m)) \<or> (run_len s m \<le> bs0 \<and> (\<lambda>_. 0) m = run_len s m)"
  proof (cases "bpopular s (s ! m)")
    case True
    then have "run_len s m = 0" by (cases m) simp_all
    then show ?thesis by simp
  next
    case False
    then show ?thesis using m(2) by (simp add: b2j_member)
  qed
  from scan_row_diag [OF ih(3) ih(4) ih(5) b2j_sorted mem ih(1) ih(2) third _ _ step]
  have r: "bi = bj" "\<forall>k < m. run_len s k \<le> bs" "run_len s m \<le> bs" "j2len m = run_len s m"
    "\<forall>j. j2len j \<le> run_len s m" "\<forall>j. j2len j \<le> run_len s j"
    by simp_all
  have "\<forall>k < Suc m. run_len s k \<le> bs" using r(2,3) by (simp add: less_Suc_eq)
  with r show ?case by simp
qed

lemma extend_left_diag: "extend_left s s 0 0 (b, b, k) = (0, 0, k + b)"
proof (induction b arbitrary: k)
  case 0
  then show ?case by (simp add: extend_left.simps)
next
  case (Suc b)
  have "extend_left s s 0 0 (Suc b, Suc b, k) = extend_left s s 0 0 (b, b, k + 1)"
    by (subst extend_left.simps) simp
  with Suc [of "k + 1"] show ?case by simp
qed

lemma extend_right_diag:
  "k \<le> length s \<Longrightarrow> extend_right s s (length s) (length s) (0, 0, k) = (0, 0, length s)"
proof (induction "length s - k" arbitrary: k)
  case 0
  then show ?case by (simp add: extend_right.simps)
next
  case (Suc d)
  then have lt: "k < length s" and d: "d = length s - (k + 1)" by simp_all
  have "extend_right s s (length s) (length s) (0, 0, k)
        = extend_right s s (length s) (length s) (0, 0, k + 1)"
    using lt by (subst extend_right.simps) simp
  with Suc.hyps(1) [OF d] lt show ?case by simp
qed

lemma find_longest_match_self:
  "find_longest_match s s 0 (length s) 0 (length s) = (0, 0, length s)"
proof -
  obtain j2len bi bj bs where sc: "scan_rows s s 0 (length s) 0 (length s) = (j2len, bi, bj, bs)"
    using prod_cases4 by blast
  then have "bi = bj"
    using scan_rows_diag [of "length s" s j2len bi bj bs] by (simp add: scan_rows_def)
  moreover have "best_ok 0 (length s) 0 (length s) (bi, bj, bs)"
    using scan_rows_upto_inv [of "length s" "length s" 0 "length s" s s 0 j2len "(bi, bj, bs)"] sc
    by (simp add: scan_rows_def)
  ultimately have le: "bs + bi \<le> length s" and d: "bi = bj"
    by (auto simp: best_ok_def)
  show ?thesis
    unfolding find_longest_match_def sc
    using le by (simp add: d extend_left_diag extend_right_diag)
qed

lemma ratio_self: "ratio s s = 1"
proof (cases "s = []")
  case True
  then show ?thesis by (simp add: ratio_def)
next
  case False
  then have "get_matching_blocks s s = [(0, 0, length s)]"
    by (simp add: get_matching_blocks_def find_longest_match_self)
  with False show ?thesis by (simp add: ratio_def)
qed

text \<open>
  Claim C8. Every string, the empty one included, has similarity 1 with itself. Two papers
  with empty titles therefore compare with similarity 1: the second pass puts them into one
  cluster, and \<open>detect_duplicates\<close> returns one paper for them.
\<close>

theorem calculate_similarity_self:
  "calculate_similarity s s = 1
   \<and> (title p = [] \<and> title q = []
       \<longrightarrow> calculate_similarity (title p) (title q) = 1
           \<and> anchor_clusters [p, q] = [[p, q]]
           \<and> length (detect_duplicates [p, q]) = 1)"
proof (intro conjI impI)
  show "calculate_similarity s s = 1"
    by (simp add: calculate_similarity_def ratio_self)
next
  assume e: "title p = [] \<and> title q = []"
  then show one: "calculate_similarity (title p) (title q) = 1"
    by (simp add: calculate_similarity_def ratio_self)
  then show "anchor_clusters [p, q] = [[p, q]]"
    by (simp add: similar_def)
  have "norm_title q = norm_title p" using e by (simp add: norm_title_def)
  then have "length (exact_pass [p, q]) = 1"
    by (simp add: exact_pass_def exact_step_def norm_title_def py_lower_def py_strip_def
          Let_def length_update_present)
  then obtain x where "map snd (exact_pass [p, q]) = [x]"
    by (cases "exact_pass [p, q]") auto
  then show "length (detect_duplicates [p, q]) = 1"
    by (simp add: detect_duplicates_def fuzzy_pass_clusters)
qed

theorem calculate_similarity_self_witness:
  "length (detect_duplicates untitled_example) = 1
   \<and> calculate_similarity ''colposcopy'' ''colposcopy'' = 1"
  using calculate_similarity_self
          [of "''colposcopy''" "example_paper [] 0 [(''main'', ''u1'')]"
              "example_paper [] 2 [(''pdf'', ''u2'')]"]
  by (simp add: untitled_example_def example_paper_def)

section \<open>What the duplicate count counts\<close>

lemma exact_pass_representative:
  assumes "q \<in> snd ` set (exact_pass rs)"
  shows "\<exists>r \<in> set rs. \<exists>l. q = r\<lparr>links := l\<rparr>"
proof -
  from assms obtain t where "(t, q) \<in> set (fold exact_step rs [])"
    by (auto simp: exact_pass_def)
  from exact_pass_values [OF this] obtain r l where
    r: "r \<in> set rs" "q = r \<or> q = r\<lparr>links := l\<rparr>" by auto
  from r(2) show ?thesis
  proof
    assume "q = r"
    then have "q = r\<lparr>links := links r\<rparr>" by simp
    with r(1) show ?thesis by blast
  next
    assume "q = r\<lparr>links := l\<rparr>"
    with r(1) show ?thesis by blast
  qed
qed

lemma exact_step_key_set: "fst ` set (exact_step p u) = insert (norm_title p) (fst ` set u)"
proof (cases "map_of u (norm_title p)")
  case None
  then show ?thesis by (simp add: exact_step_def norm_title_def dom_update)
next
  case (Some kept)
  then have "norm_title p \<in> fst ` set u" by (metis domI dom_map_of_conv_image_fst)
  with Some show ?thesis
    by (auto simp: exact_step_def norm_title_def [symmetric] Let_def dom_update)
qed

lemma exact_pass_key_set:
  "fst ` set (fold exact_step rs u) = fst ` set u \<union> norm_title ` set rs"
  by (induction rs arbitrary: u) (auto simp: exact_step_key_set)

lemma exact_pass_count: "length (exact_pass rs) = card (norm_title ` set rs)"
proof -
  have d: "distinct (map fst (exact_pass rs))"
    using exact_pass_keys_fold [of "[]" rs] by (simp add: exact_pass_def)
  have "set (map fst (exact_pass rs)) = norm_title ` set rs"
    using exact_pass_key_set [of rs "[]"] by (simp add: exact_pass_def)
  with distinct_card [OF d] show ?thesis by simp
qed

lemma anchor_clusters_distinct:
  "distinct (map f ps) \<Longrightarrow> c \<in> set (anchor_clusters ps) \<Longrightarrow> distinct (map f c)"
proof (induction ps rule: anchor_clusters.induct)
  case 1
  then show ?case by simp
next
  case (2 p ps)
  from "2.prems"(2) consider "c = p # filter (similar p) ps"
    | "c \<in> set (anchor_clusters (filter (\<lambda>q. \<not> similar p q) ps))" by auto
  then show ?case
  proof cases
    case 1
    have "distinct (map f (filter (similar p) ps))"
      using "2.prems"(1) by (simp add: distinct_map_filter)
    moreover have "f p \<notin> f ` set (filter (similar p) ps)"
      using "2.prems"(1) by auto
    ultimately show ?thesis by (simp add: 1)
  next
    case 2
    have "distinct (map f (filter (\<lambda>q. \<not> similar p q) ps))"
      using "2.prems"(1) by (simp add: distinct_map_filter)
    from "2.IH" [OF this 2] show ?thesis .
  qed
qed

lemma anchor_clusters_concat_length: "length (concat (anchor_clusters ps)) = length ps"
proof (induction ps rule: anchor_clusters.induct)
  case 1
  then show ?case by simp
next
  case (2 p ps)
  have "length (filter (similar p) ps) + length (filter (\<lambda>q. \<not> similar p q) ps) = length ps"
    by (rule sum_length_filter_compl)
  with 2 show ?case by simp
qed

lemma fuzzy_cluster_titles:
  assumes "c \<in> set (fuzzy_clusters rs)"
  shows "distinct (map norm_title c)"
proof -
  from assms have "c \<in> set (anchor_clusters (map snd (exact_pass rs)))"
    by (simp add: fuzzy_clusters_def)
  with exact_pass_norm_titles [of rs] show ?thesis
    by (rule anchor_clusters_distinct)
qed

lemma mixed_example_clusters: "map length (fuzzy_clusters mixed_example) = [2, 1]"
  by code_simp

lemma mixed_example_result:
  "map duplicate_count (detect_duplicates mixed_example) = [Some 2, None]"
  by code_simp

text \<open>
  Claim C2, amended. The output is the merge of the clusters of the second pass, cluster by
  cluster. The members of a cluster are papers that the first pass left: each is a paper of
  the input with at most its links changed, and their first-pass keys are pairwise
  distinct; all clusters together have as many members as the input has distinct keys, so
  a paper that collapsed in the first pass is counted nowhere. For a cluster of more than
  one member the paper returned carries the number of members as \<open>duplicate_count\<close>. For
  a cluster of one member the paper returned is that member: a paper of the input with at
  most its links changed and the \<open>duplicate_count\<close> it came with, which is none for a
  paper from an adapter.
\<close>

theorem duplicate_count_of_clusters:
  "detect_duplicates rs = map merge_duplicates (fuzzy_clusters rs)
   \<and> length (concat (fuzzy_clusters rs)) = card (norm_title ` set rs)
   \<and> (\<forall>c \<in> set (fuzzy_clusters rs).
         0 < length c \<and> distinct (map norm_title c)
         \<and> (\<forall>q \<in> set c. \<exists>r \<in> set rs. \<exists>l. q = r\<lparr>links := l\<rparr>)
         \<and> (1 < length c \<longrightarrow> duplicate_count (merge_duplicates c) = Some (length c))
         \<and> (length c = 1 \<longrightarrow>
               (\<exists>r \<in> set rs. \<exists>l. merge_duplicates c = r\<lparr>links := l\<rparr>
                    \<and> duplicate_count (merge_duplicates c) = duplicate_count r)))"
proof (intro conjI ballI impI)
  show "detect_duplicates rs = map merge_duplicates (fuzzy_clusters rs)"
    by (rule detect_duplicates_clusters)
  show "length (concat (fuzzy_clusters rs)) = card (norm_title ` set rs)"
    by (simp add: fuzzy_clusters_def anchor_clusters_concat_length exact_pass_count)
next
  fix c assume c: "c \<in> set (fuzzy_clusters rs)"
  then show "0 < length c"
    using anchor_clusters_nonempty [of c] by (simp add: fuzzy_clusters_def)
  from c show "distinct (map norm_title c)" by (rule fuzzy_cluster_titles)
next
  fix c q assume c: "c \<in> set (fuzzy_clusters rs)" and q: "q \<in> set c"
  then have "q \<in> snd ` set (exact_pass rs)"
    using anchor_clusters_subset [of c "map snd (exact_pass rs)"]
    by (auto simp: fuzzy_clusters_def)
  then show "\<exists>r \<in> set rs. \<exists>l. q = r\<lparr>links := l\<rparr>"
    by (rule exact_pass_representative)
next
  fix c :: "'a paper list" assume "1 < length c"
  then show "duplicate_count (merge_duplicates c) = Some (length c)"
    by (rule merge_duplicates_count)
next
  fix c assume c: "c \<in> set (fuzzy_clusters rs)" and one: "length c = 1"
  from one obtain q where cq: "c = [q]" by (cases c) auto
  then have "q \<in> snd ` set (exact_pass rs)"
    using c anchor_clusters_subset [of c "map snd (exact_pass rs)"]
    by (auto simp: fuzzy_clusters_def)
  from exact_pass_representative [OF this] obtain r l where
    "r \<in> set rs" "q = r\<lparr>links := l\<rparr>" by blast
  then show "\<exists>r \<in> set rs. \<exists>l. merge_duplicates c = r\<lparr>links := l\<rparr>
                    \<and> duplicate_count (merge_duplicates c) = duplicate_count r"
    unfolding cq merge_duplicates_single by auto
qed

theorem duplicate_count_of_clusters_witness:
  "length mixed_example = 4
   \<and> card (norm_title ` set mixed_example) = 3
   \<and> map duplicate_count (map merge_duplicates (fuzzy_clusters mixed_example)) = [Some 2, None]"
proof -
  have "length (concat (fuzzy_clusters mixed_example)) = 3"
    using mixed_example_clusters by (simp add: length_concat)
  moreover have "length mixed_example = 4" by (simp add: mixed_example_def)
  ultimately show ?thesis
    using duplicate_count_of_clusters [of mixed_example] mixed_example_result by simp
qed

end
